theory Spec2Isabelle
  imports Complex_Main "HOL-Library.Word" "HOL-Library.Log_Nat"
begin

unbundle bit_operations_syntax

section \<open>Configuration macros\<close>

text \<open>
  \<^verbatim>\<open>#define TEST_BUFFER_SIZE (128 * 1024)\<close> and
  \<^verbatim>\<open>#define TEST_FILE_SIZE (4 * 1024 * 1024)\<close> of
  \<^verbatim>\<open>main/sd_card_example_main.c\<close>. The loops below take both as parameters, so that
  they can be studied at other sizes; the speed tests instantiate them with the macros.
  Sizes are \<open>size_t\<close> values; they are modelled as \<open>nat\<close>, because no
  operation of the loops can wrap: the subtraction is guarded by the loop condition and
  the running total never exceeds the target.
\<close>

definition TEST_BUFFER_SIZE :: nat where
  "TEST_BUFFER_SIZE = 128 * 1024"

definition TEST_FILE_SIZE :: nat where
  "TEST_FILE_SIZE = 4 * 1024 * 1024"

section \<open>The stdio stream seen by a transfer\<close>

text \<open>
  What one \<^verbatim>\<open>fwrite\<close> or \<^verbatim>\<open>fread\<close> call leaves behind: the returned item
  count, the stream's error and end-of-file indicators as \<^verbatim>\<open>ferror\<close> and
  \<^verbatim>\<open>feof\<close> report them afterwards, and \<^verbatim>\<open>errno\<close>.
\<close>

record io_result =
  count :: nat
  ferror :: bool
  feof :: bool
  errno :: int

text \<open>
  The device is an oracle: given the number of stdio calls made so far on the stream and
  the requested size, it answers the call. Every deterministic stream is such a function.
\<close>

type_synonym device = "nat \<Rightarrow> nat \<Rightarrow> io_result"

datatype mode = WriteMode | ReadMode

section \<open>Diagnostics and observable events\<close>

text \<open>
  A floating-point value: a finite one, given by the rational number it denotes, an
  infinity or not-a-number.
\<close>

datatype cfloat = Fin rat | PInf | NInf | NaN

datatype level = LOGE | LOGW | LOGI | LOGD

text \<open>The values of \<^verbatim>\<open>esp_err_t\<close> that \<^verbatim>\<open>app_main\<close> tells apart.\<close>

datatype esp_err = ESP_OK | ESP_FAIL | ESP_ERR int

text \<open>
  One constructor for each format string of the \<^verbatim>\<open>ESP_LOGx\<close> calls, with the
  arguments that vary.
\<close>

datatype msg =
    Testing_write_speed
  | Testing_read_speed
  | Failed_to_allocate_buffer
  | Opening_file_for_writing
  | Opening_file_for_reading
  | Failed_to_open_file_for_writing int
  | Failed_to_open_file_for_reading int
  | Write_failed
  | Read_partial_failed nat nat nat bool bool
  | Read_failed_with_error int
  | Unexpected_EOF nat
  | Read_progress nat nat nat
  | Write_speed cfloat rat nat
  | Read_speed cfloat rat nat
  | Initializing_SD_card
  | Using_SDMMC_peripheral
  | Mounting_filesystem
  | Failed_to_mount_filesystem
  | Failed_to_initialize_the_card esp_err
  | Filesystem_mounted
  | Opening_file string
  | Failed_to_open_file_for_writing_hello
  | File_written
  | Renaming_file string string
  | Rename_failed
  | Reading_file string
  | Failed_to_open_file_for_reading_foo
  | Read_from_file string
  | Card_unmounted

text \<open>
  The calls into the collaborators (heap, timer, stdio, filesystem, mount service) and the
  diagnostics sink, in the order the program makes them.
\<close>

datatype event =
    Log level msg
  | Stat string bool
  | Unlink string
  | Malloc nat bool
  | Free
  | Fopen string string bool
  | Timer int
  | Fwrite nat io_result
  | Fread nat io_result
  | Fflush
  | Fsync
  | Fclose
  | Heap_caps_malloc nat bool
  | Mount esp_err
  | Card_print_info
  | Fprintf string
  | Rename string string int
  | Fgets nat
  | Unmount

section \<open>The chunked transfer loop\<close>

text \<open>
  The state of the \<^verbatim>\<open>while\<close> loops of \<^verbatim>\<open>test_write_speed\<close> (lines 108-123)
  and \<^verbatim>\<open>test_read_speed\<close> (lines 181-208): the running total
  (\<^verbatim>\<open>bytes_written\<close>, \<^verbatim>\<open>bytes_read\<close>), whether the loop was left through
  \<^verbatim>\<open>break\<close>, and two ghost fields: the number of stdio calls made, which selects the
  device's answer, and the events emitted so far.
\<close>

record session =
  bytes_transferred :: nat
  broke :: bool
  ncalls :: nat
  trace :: "event list"

definition session_init :: session where
  "session_init = \<lparr>bytes_transferred = 0, broke = False, ncalls = 0, trace = []\<rparr>"

text \<open>
  \<^verbatim>\<open>size_t to_write = TEST_FILE_SIZE - bytes_written;
  if (to_write > TEST_BUFFER_SIZE) to_write = TEST_BUFFER_SIZE;\<close>
\<close>

definition chunk_size :: "nat \<Rightarrow> nat \<Rightarrow> nat \<Rightarrow> nat" where
  "chunk_size target buf bytes =
     (let to = target - bytes in if to > buf then buf else to)"

definition xfer_event :: "mode \<Rightarrow> nat \<Rightarrow> io_result \<Rightarrow> event" where
  "xfer_event m to res = (case m of WriteMode \<Rightarrow> Fwrite to res | ReadMode \<Rightarrow> Fread to res)"

text \<open>
  What is logged when a call returns another count than requested. The write loop logs one
  fixed line; the read loop logs the counts and both stream indicators, then one of two
  lines chosen by \<^verbatim>\<open>ferror(f)\<close>.
\<close>

definition failure_logs :: "mode \<Rightarrow> nat \<Rightarrow> nat \<Rightarrow> io_result \<Rightarrow> event list" where
  "failure_logs m bytes to res =
     (case m of
        WriteMode \<Rightarrow> [Log LOGE Write_failed]
      | ReadMode \<Rightarrow>
          [Log LOGE (Read_partial_failed (count res) to bytes (ferror res) (feof res)),
           if ferror res then Log LOGE (Read_failed_with_error (errno res))
           else Log LOGW (Unexpected_EOF bytes)])"

text \<open>The read loop logs its progress after each full chunk; the write loop logs nothing.\<close>

definition progress_logs :: "mode \<Rightarrow> nat \<Rightarrow> nat \<Rightarrow> nat \<Rightarrow> event list" where
  "progress_logs m bytes n target =
     (case m of
        WriteMode \<Rightarrow> []
      | ReadMode \<Rightarrow> [Log LOGD (Read_progress n (bytes + n) target)])"

text \<open>One run of the loop body.\<close>

definition transfer_step :: "mode \<Rightarrow> device \<Rightarrow> nat \<Rightarrow> nat \<Rightarrow> session \<Rightarrow> session" where
  "transfer_step m dev target buf s =
     (let to = chunk_size target buf (bytes_transferred s);
          res = dev (ncalls s) to;
          tr = trace s @ [xfer_event m to res]
      in if count res \<noteq> to
         then s\<lparr>broke := True, ncalls := Suc (ncalls s),
                trace := tr @ failure_logs m (bytes_transferred s) to res\<rparr>
         else s\<lparr>bytes_transferred := bytes_transferred s + count res,
                ncalls := Suc (ncalls s),
                trace := tr @ progress_logs m (bytes_transferred s) (count res) target\<rparr>)"

text \<open>
  The loop. With a zero buffer size and a device that answers a zero-byte request with
  zero it never returns, so its result is optional: \<open>None\<close> is "does not return".
\<close>

partial_function (option) transfer_loop ::
  "mode \<Rightarrow> device \<Rightarrow> nat \<Rightarrow> nat \<Rightarrow> session \<Rightarrow> session option" where
  "transfer_loop m dev target buf s =
     (if bytes_transferred s < target
      then (if broke (transfer_step m dev target buf s)
            then Some (transfer_step m dev target buf s)
            else transfer_loop m dev target buf (transfer_step m dev target buf s))
      else Some s)"

declare transfer_loop.simps [code]

text \<open>The stdio calls of a trace, as pairs of requested and returned counts.\<close>

fun io_calls :: "event list \<Rightarrow> (nat \<times> nat) list" where
  "io_calls [] = []"
| "io_calls (Fwrite n r # es) = (n, count r) # io_calls es"
| "io_calls (Fread n r # es) = (n, count r) # io_calls es"
| "io_calls (_ # es) = io_calls es"

text \<open>
  The request sizes of a complete transfer of \<open>n\<close> bytes through a buffer of
  \<open>buf\<close> bytes, as section 8 of the specification words them: \<open>n div buf\<close>
  full buffers, then the remainder if there is one.
\<close>

definition chunk_plan :: "nat \<Rightarrow> nat \<Rightarrow> nat list" where
  "chunk_plan n buf = replicate (n div buf) buf @ (if n mod buf = 0 then [] else [n mod buf])"

text \<open>A stream on which every call transfers what was asked.\<close>

definition ideal_device :: device where
  "ideal_device k n = \<lparr>count = n, ferror = False, feof = False, errno = 0\<rparr>"


text \<open>A stream that returns one byte less than asked at call \<open>j\<close>, at end of data.\<close>

definition short_at :: "nat \<Rightarrow> device" where
  "short_at j k n =
     (if k = j then \<lparr>count = n - 1, ferror = False, feof = True, errno = 0\<rparr>
      else ideal_device k n)"

text \<open>The same, but with the stream's error indicator set.\<close>

definition error_at :: "nat \<Rightarrow> device" where
  "error_at j k n =
     (if k = j then \<lparr>count = n - 1, ferror = True, feof = False, errno = 5\<rparr>
      else ideal_device k n)"

text \<open>
  The states at the head of the loop during a session: the initial one, and the one after
  each run of the body that the loop condition and the absence of \<^verbatim>\<open>break\<close> allow.
\<close>

inductive session_reach :: "mode \<Rightarrow> device \<Rightarrow> nat \<Rightarrow> nat \<Rightarrow> session \<Rightarrow> bool"
  for m dev target buf where
    start: "session_reach m dev target buf session_init"
  | iter: "session_reach m dev target buf s \<Longrightarrow> \<not> broke s
           \<Longrightarrow> bytes_transferred s < target
           \<Longrightarrow> session_reach m dev target buf (transfer_step m dev target buf s)"

code_pred session_reach .

section \<open>Buffer fill\<close>

text \<open>
  \<^verbatim>\<open>for (int i = 0; i < TEST_BUFFER_SIZE; i++) buffer[i] = i & 0xFF;\<close>
  (lines 88-92). The buffer is the list of its bytes; \<^verbatim>\<open>malloc\<close> gave it the length
  \<open>n\<close> and arbitrary contents. The index stays below \<open>n\<close>, which is an
  \<^verbatim>\<open>int\<close> constant, so it cannot overflow. The loop calls no collaborator: it
  emits no event.
\<close>

function fill_loop :: "nat \<Rightarrow> nat \<Rightarrow> 8 word list \<Rightarrow> 8 word list" where
  "fill_loop i n buffer =
     (if i < n then fill_loop (i + 1) n (buffer[i := of_nat (i AND 0xFF)]) else buffer)"
  by pat_completeness auto
termination
  by (relation "measure (\<lambda>(i, n, buffer). n - i)") auto

declare fill_loop.simps [simp del]

definition fill_buffer :: "nat \<Rightarrow> 8 word list \<Rightarrow> 8 word list" where
  "fill_buffer n buffer = fill_loop 0 n buffer"

section \<open>Elapsed time and throughput\<close>

subsection \<open>Machine arithmetic\<close>

text \<open>
  \<^verbatim>\<open>end_time - start_time\<close> is a subtraction of \<^verbatim>\<open>int64_t\<close> values; a
  difference outside the type wraps around.
\<close>

definition wrap64 :: "int \<Rightarrow> int" where
  "wrap64 x = (x + 2 ^ 63) mod 2 ^ 64 - 2 ^ 63"

text \<open>The binary exponent of a positive rational: \<open>2 powi e \<le> x < 2 powi (e + 1)\<close>.\<close>

definition ilog2 :: "rat \<Rightarrow> int" where
  "ilog2 x = (if 1 \<le> x then bitlen \<lfloor>x\<rfloor> - 1 else - bitlen (\<lceil>1 / x\<rceil> - 1))"

text \<open>Rounding to the nearest integer, ties to the even one.\<close>

definition rne :: "rat \<Rightarrow> int" where
  "rne z =
     (let f = \<lfloor>z\<rfloor>; d = z - of_int f
      in if d < 1 / 2 then f else if 1 / 2 < d then f + 1 else if even f then f else f + 1)"

text \<open>
  IEEE 754 rounding to nearest, ties to even, into a binary format with \<open>p\<close>
  significand bits and least normal exponent \<open>emin\<close>: the value is rounded to a
  multiple of the unit in the last place of its binade, or of the subnormal unit below
  \<open>2 powi emin\<close>. The exponent is not bounded above here.
\<close>

definition rnd :: "nat \<Rightarrow> int \<Rightarrow> rat \<Rightarrow> rat" where
  "rnd p emin x =
     (if x = 0 then 0
      else let q = 2 powi (max (ilog2 \<bar>x\<bar>) emin - (int p - 1))
           in sgn x * (of_int (rne (\<bar>x\<bar> / q)) * q))"

text \<open>The same with the format's greatest exponent: a rounded value beyond it overflows.\<close>

definition fround :: "nat \<Rightarrow> int \<Rightarrow> int \<Rightarrow> rat \<Rightarrow> cfloat" where
  "fround p emin emax x =
     (let y = rnd p emin x
      in if 2 powi (emax + 1) \<le> \<bar>y\<bar> then (if 0 < y then PInf else NInf) else Fin y)"

text \<open>
  \<^verbatim>\<open>double\<close> is binary64 and \<^verbatim>\<open>float\<close> is binary32. \<open>round_double\<close> and
  \<open>round_float\<close> are used where the operands keep the result far below the overflow
  threshold.
\<close>

definition round_double :: "rat \<Rightarrow> rat" where
  "round_double = rnd 53 (- 1022)"

definition round_float :: "rat \<Rightarrow> rat" where
  "round_float = rnd 24 (- 126)"

definition to_double :: "rat \<Rightarrow> cfloat" where
  "to_double = fround 53 (- 1022) 1023"

definition to_float :: "rat \<Rightarrow> cfloat" where
  "to_float = fround 24 (- 126) 127"

subsection \<open>The two computations\<close>

text \<open>
  \<^verbatim>\<open>float time_s = (end_time - start_time) / 1000000.0;\<close> (lines 132 and 213) for
  a difference \<open>d\<close>: \<open>d\<close> is converted to \<^verbatim>\<open>double\<close>, divided by the
  \<^verbatim>\<open>double\<close> constant, and the quotient is converted to \<^verbatim>\<open>float\<close>. The
  magnitude is at most \<open>2\<^sup>6\<^sup>3 / 10\<^sup>6\<close>, so nothing overflows.
\<close>

definition elapsed_seconds :: "int \<Rightarrow> rat" where
  "elapsed_seconds d = round_float (round_double (round_double (of_int d) / 1000000))"

text \<open>The timestamps are microsecond counts (\<^verbatim>\<open>int64_t\<close>).\<close>

definition time_seconds :: "int \<Rightarrow> int \<Rightarrow> rat" where
  "time_seconds start_t end_t = elapsed_seconds (wrap64 (end_t - start_t))"

text \<open>
  Division of two finite \<^verbatim>\<open>double\<close> values: a zero divisor gives an infinity of the
  dividend's sign, or not-a-number for a zero dividend; otherwise the quotient is rounded.
  (A zero \<open>time_s\<close> comes from the integer 0 and is the positive zero.)
\<close>

definition fdiv :: "rat \<Rightarrow> rat \<Rightarrow> cfloat" where
  "fdiv a b =
     (if b = 0 then (if a = 0 then NaN else if 0 < a then PInf else NInf)
      else to_double (a / b))"

text \<open>The conversion of a \<^verbatim>\<open>double\<close> to \<^verbatim>\<open>float\<close>.\<close>

definition narrow :: "cfloat \<Rightarrow> cfloat" where
  "narrow v = (case v of Fin y \<Rightarrow> to_float y | _ \<Rightarrow> v)"

text \<open>
  \<^verbatim>\<open>float speed_mb = (TEST_FILE_SIZE / (1024.0 * 1024.0)) / time_s;\<close> (lines 133 and
  214): the size is converted to \<^verbatim>\<open>double\<close> and divided by \<open>2\<^sup>2\<^sup>0\<close>, that quotient
  is divided by \<open>time_s\<close> in \<^verbatim>\<open>double\<close>, and the result is converted to
  \<^verbatim>\<open>float\<close>.
\<close>

definition speed_mb :: "nat \<Rightarrow> rat \<Rightarrow> cfloat" where
  "speed_mb nbytes time_s =
     narrow (fdiv (round_double (round_double (of_nat nbytes) / (1024 * 1024))) time_s)"

section \<open>The speed tests\<close>

text \<open>
  What a speed test meets outside: whether the test file exists (\<^verbatim>\<open>stat\<close>, write
  test only), whether the allocation and \<^verbatim>\<open>fopen\<close> succeed, \<^verbatim>\<open>errno\<close>
  after a failed \<^verbatim>\<open>fopen\<close>, the stream, and the two readings of
  \<^verbatim>\<open>esp_timer_get_time\<close>.
\<close>

record test_env =
  file_exists :: bool
  malloc_ok :: bool
  fopen_ok :: bool
  fopen_errno :: int
  stream :: device
  start_time :: int
  end_time :: int

definition TEST_FILE_PATH :: string where
  "TEST_FILE_PATH = ''/sdcard/test.txt''"

text \<open>
  \<^verbatim>\<open>test_write_speed\<close> (lines 70-139), with the two macros as parameters. The
  result is the sequence of events; \<open>None\<close> when the loop does not return. The stream
  model answers with counts only, so the filled buffer does not show in the events.
\<close>

definition test_write_speed_at :: "nat \<Rightarrow> nat \<Rightarrow> test_env \<Rightarrow> event list option" where
  "test_write_speed_at buf target env =
     (let t0 = [Log LOGI Testing_write_speed, Stat TEST_FILE_PATH (file_exists env)]
               @ (if file_exists env then [Unlink TEST_FILE_PATH] else [])
               @ [Malloc buf (malloc_ok env)]
      in if \<not> malloc_ok env then Some (t0 @ [Log LOGE Failed_to_allocate_buffer])
         else
           let t1 = t0 @ [Log LOGI Opening_file_for_writing,
                          Fopen TEST_FILE_PATH ''w'' (fopen_ok env)]
           in if \<not> fopen_ok env
              then Some (t1 @ [Log LOGE (Failed_to_open_file_for_writing (fopen_errno env)),
                               Free])
              else
                (case transfer_loop WriteMode (stream env) target buf session_init of
                   None \<Rightarrow> None
                 | Some r \<Rightarrow>
                     let time_s = time_seconds (start_time env) (end_time env)
                     in Some (t1 @ [Timer (start_time env)] @ trace r
                              @ [Fflush, Fsync, Fclose, Timer (end_time env),
                                 Log LOGI (Write_speed (speed_mb target time_s) time_s target),
                                 Free])))"

definition test_write_speed :: "test_env \<Rightarrow> event list option" where
  "test_write_speed = test_write_speed_at TEST_BUFFER_SIZE TEST_FILE_SIZE"

text \<open>\<^verbatim>\<open>test_read_speed\<close> (lines 155-223).\<close>

definition test_read_speed_at :: "nat \<Rightarrow> nat \<Rightarrow> test_env \<Rightarrow> event list option" where
  "test_read_speed_at buf target env =
     (let t0 = [Log LOGI Testing_read_speed, Heap_caps_malloc buf (malloc_ok env)]
      in if \<not> malloc_ok env then Some (t0 @ [Log LOGE Failed_to_allocate_buffer])
         else
           let t1 = t0 @ [Log LOGI Opening_file_for_reading,
                          Fopen TEST_FILE_PATH ''r'' (fopen_ok env)]
           in if \<not> fopen_ok env
              then Some (t1 @ [Log LOGE (Failed_to_open_file_for_reading (fopen_errno env)),
                               Free])
              else
                (case transfer_loop ReadMode (stream env) target buf session_init of
                   None \<Rightarrow> None
                 | Some r \<Rightarrow>
                     let time_s = time_seconds (start_time env) (end_time env)
                     in Some (t1 @ [Timer (start_time env)] @ trace r
                              @ [Fclose, Timer (end_time env),
                                 Log LOGI (Read_speed (speed_mb target time_s) time_s target),
                                 Free, Unlink TEST_FILE_PATH])))"

definition test_read_speed :: "test_env \<Rightarrow> event list option" where
  "test_read_speed = test_read_speed_at TEST_BUFFER_SIZE TEST_FILE_SIZE"

section \<open>The smoke test's line\<close>

text \<open>
  A C string is modelled by the list of its characters; what a \<^verbatim>\<open>char\<close> array
  holds as a string ends before its first NUL.
\<close>

definition cstr :: "string \<Rightarrow> string" where
  "cstr s = takeWhile (\<lambda>c. c \<noteq> CHR 0x00) s"

text \<open>\<^verbatim>\<open>fprintf(f, "Hello %s!\n", card->cid.name)\<close>: the bytes written.\<close>

definition hello_line :: "string \<Rightarrow> string" where
  "hello_line name = ''Hello '' @ cstr name @ ''!'' @ [CHR 0x0A]"

text \<open>
  The characters \<^verbatim>\<open>fgets\<close> stores when it may store \<open>n\<close> of them: it stops
  after a newline, at the end of the file, or when \<open>n\<close> are stored.
\<close>

fun fgets_chars :: "nat \<Rightarrow> string \<Rightarrow> string" where
  "fgets_chars 0 cs = []"
| "fgets_chars (Suc n) [] = []"
| "fgets_chars (Suc n) (c # cs) = (if c = CHR 0x0A then [c] else c # fgets_chars n cs)"

text \<open>
  \<^verbatim>\<open>fgets(line, sz, f)\<close> on a stream holding \<open>content\<close>: the string left in
  \<open>line\<close>. At most \<open>sz - 1\<close> characters are stored before the terminator; at
  end of file nothing is stored and \<open>line\<close> keeps what it held (the program ignores
  the return value).
\<close>

definition fgets :: "nat \<Rightarrow> string \<Rightarrow> string \<Rightarrow> string" where
  "fgets sz content line =
     (if content = [] then line else cstr (fgets_chars (sz - 1) content))"

text \<open>\<^verbatim>\<open>strchr(s, c)\<close>: the offset of the first \<open>c\<close> in the string, if any.\<close>

definition strchr :: "string \<Rightarrow> char \<Rightarrow> nat option" where
  "strchr s c = (if c \<in> set s then Some (length (takeWhile (\<lambda>x. x \<noteq> c) s)) else None)"

text \<open>
  \<^verbatim>\<open>char *pos = strchr(line, '\n'); if (pos) *pos = '\0';\<close>: the string then ends
  at \<open>pos\<close>.
\<close>

definition strip_newline :: "string \<Rightarrow> string" where
  "strip_newline line = (case strchr line (CHR 0x0A) of Some pos \<Rightarrow> take pos line | None \<Rightarrow> line)"

text \<open>
  Lines 386-396 of \<^verbatim>\<open>app_main\<close>: \<^verbatim>\<open>char line[64]\<close>, the \<^verbatim>\<open>fgets\<close> into
  it and the strip. \<open>line0\<close> is what the uninitialised array happens to hold.
\<close>

definition smoke_read_line :: "string \<Rightarrow> string \<Rightarrow> string" where
  "smoke_read_line content line0 = strip_newline (fgets 64 content line0)"

section \<open>The program\<close>

text \<open>
  What \<^verbatim>\<open>app_main\<close> meets outside: the result of the mount, the card's name, the
  outcome of each file operation of the smoke test, and the environments of the two speed
  tests. The filesystem is assumed to return from \<^verbatim>\<open>foo.txt\<close> what was written to
  \<^verbatim>\<open>hello.txt\<close> before the rename.
\<close>

record app_env =
  mount_ret :: esp_err
  card_name :: string
  hello_fopen_ok :: bool
  foo_exists :: bool
  rename_ret :: int
  foo_fopen_ok :: bool
  line_garbage :: string
  write_env :: test_env
  read_env :: test_env

definition file_hello :: string where
  "file_hello = ''/sdcard/hello.txt''"

definition file_foo :: string where
  "file_foo = ''/sdcard/foo.txt''"

text \<open>
  The two versions of \<^verbatim>\<open>app_main\<close> in the repository are the same text up to the
  read-back of the line; \<^verbatim>\<open>main/sd_card_example_main.c\<close> then runs the two
  speed tests before unmounting, the other source file unmounts at once. The common text is
  modelled once, with the speed-test part \<open>tests\<close> as a parameter: its events, or
  \<open>None\<close> when it does not return. Every \<^verbatim>\<open>return\<close> of the source is a branch
  that ends the event list.
\<close>

definition app_main_with :: "event list option \<Rightarrow> app_env \<Rightarrow> event list option" where
  "app_main_with tests env =
     (let t0 = [Log LOGI Initializing_SD_card, Log LOGI Using_SDMMC_peripheral,
                Log LOGI Mounting_filesystem, Mount (mount_ret env)]
      in if mount_ret env \<noteq> ESP_OK
         then Some (t0 @ [if mount_ret env = ESP_FAIL then Log LOGE Failed_to_mount_filesystem
                          else Log LOGE (Failed_to_initialize_the_card (mount_ret env))])
         else
           let t1 = t0 @ [Log LOGI Filesystem_mounted, Card_print_info,
                          Log LOGI (Opening_file file_hello),
                          Fopen file_hello ''w'' (hello_fopen_ok env)]
           in if \<not> hello_fopen_ok env
              then Some (t1 @ [Log LOGE Failed_to_open_file_for_writing_hello])
              else
                let t2 = t1 @ [Fprintf (hello_line (card_name env)), Fclose,
                               Log LOGI File_written, Stat file_foo (foo_exists env)]
                            @ (if foo_exists env then [Unlink file_foo] else [])
                            @ [Log LOGI (Renaming_file file_hello file_foo),
                               Rename file_hello file_foo (rename_ret env)]
                in if rename_ret env \<noteq> 0
                   then Some (t2 @ [Log LOGE Rename_failed])
                   else
                     let t3 = t2 @ [Log LOGI (Reading_file file_foo),
                                    Fopen file_foo ''r'' (foo_fopen_ok env)]
                     in if \<not> foo_fopen_ok env
                        then Some (t3 @ [Log LOGE Failed_to_open_file_for_reading_foo])
                        else
                          let line = smoke_read_line (hello_line (card_name env))
                                       (line_garbage env);
                              t4 = t3 @ [Fgets 64, Fclose, Log LOGI (Read_from_file line)]
                          in (case tests of
                                None \<Rightarrow> None
                              | Some ts \<Rightarrow>
                                  Some (t4 @ ts @ [Unmount, Log LOGI Card_unmounted])))"

text \<open>
  \<^verbatim>\<open>test_write_speed(); test_read_speed();\<close> (lines 401-402): the read test runs
  when the write test has returned.
\<close>

definition speed_tests :: "app_env \<Rightarrow> event list option" where
  "speed_tests env =
     (case test_write_speed (write_env env) of
        None \<Rightarrow> None
      | Some tw \<Rightarrow>
          (case test_read_speed (read_env env) of
             None \<Rightarrow> None
           | Some tr \<Rightarrow> Some (tw @ tr)))"

text \<open>\<^verbatim>\<open>app_main\<close> of \<^verbatim>\<open>main/sd_card_example_main.c\<close> (lines 251-406).\<close>

definition app_main :: "app_env \<Rightarrow> event list option" where
  "app_main env = app_main_with (speed_tests env) env"

text \<open>\<^verbatim>\<open>app_main\<close> of the second source file (its lines 29-184), without speed tests.\<close>

definition app_main_basic :: "app_env \<Rightarrow> event list option" where
  "app_main_basic env = app_main_with (Some []) env"

section \<open>Reading traces\<close>

text \<open>The speed-report lines of a trace: throughput, seconds and byte count of each.\<close>

definition speed_report :: "event \<Rightarrow> (cfloat \<times> rat \<times> nat) option" where
  "speed_report e =
     (case e of
        Log l (Write_speed sp t n) \<Rightarrow> Some (sp, t, n)
      | Log l (Read_speed sp t n) \<Rightarrow> Some (sp, t, n)
      | _ \<Rightarrow> None)"

definition speed_reports :: "event list \<Rightarrow> (cfloat \<times> rat \<times> nat) list" where
  "speed_reports tr = List.map_filter speed_report tr"

text \<open>The diagnostics of a trace.\<close>

definition logs :: "event list \<Rightarrow> (level \<times> msg) list" where
  "logs tr = List.map_filter (\<lambda>e. case e of Log l m \<Rightarrow> Some (l, m) | _ \<Rightarrow> None) tr"

text \<open>
  Events other than a timer reading, a flush, a sync, a close and a speed report: all
  that happens before the first timestamp and inside the loop is of this kind.
\<close>

definition plain_event :: "event \<Rightarrow> bool" where
  "plain_event e =
     (case e of
        Timer t \<Rightarrow> False
      | Fflush \<Rightarrow> False
      | Fsync \<Rightarrow> False
      | Fclose \<Rightarrow> False
      | Log l m \<Rightarrow> speed_report (Log l m) = None
      | _ \<Rightarrow> True)"

text \<open>What the loop emits while no call has failed: stdio calls and progress lines.\<close>

definition progress_event :: "event \<Rightarrow> bool" where
  "progress_event e =
     (case e of
        Fwrite n r \<Rightarrow> count r = n
      | Fread n r \<Rightarrow> count r = n
      | Log l m \<Rightarrow> l = LOGD
      | _ \<Rightarrow> False)"


section \<open>Concrete environments\<close>

text \<open>A speed-test environment in which everything succeeds and one second elapses.\<close>

definition quiet_test_env :: test_env where
  "quiet_test_env =
     \<lparr>file_exists = False, malloc_ok = True, fopen_ok = True, fopen_errno = 0,
      stream = ideal_device, start_time = 0, end_time = 1000000\<rparr>"

text \<open>A run in which everything succeeds.\<close>

definition quiet_env :: app_env where
  "quiet_env =
     \<lparr>mount_ret = ESP_OK, card_name = ''SD16G'', hello_fopen_ok = True, foo_exists = False,
      rename_ret = 0, foo_fopen_ok = True, line_garbage = [],
      write_env = quiet_test_env, read_env = quiet_test_env\<rparr>"

text \<open>
  Runs in which the card mounts and then one file operation of the smoke test fails: the
  first \<^verbatim>\<open>fopen\<close>, the \<^verbatim>\<open>rename\<close>, the second \<^verbatim>\<open>fopen\<close>.
\<close>

definition open_fails_env :: app_env where
  "open_fails_env = quiet_env\<lparr>hello_fopen_ok := False\<rparr>"

definition rename_fails_env :: app_env where
  "rename_fails_env = quiet_env\<lparr>rename_ret := - 1\<rparr>"

definition reopen_fails_env :: app_env where
  "reopen_fails_env = quiet_env\<lparr>foo_fopen_ok := False\<rparr>"

text \<open>A speed test in which the two timer readings are equal.\<close>

definition zero_elapsed_env :: test_env where
  "zero_elapsed_env = quiet_test_env\<lparr>start_time := 5000, end_time := 5000\<rparr>"

text \<open>A speed test in which two seconds elapse.\<close>

definition two_second_env :: test_env where
  "two_second_env = quiet_test_env\<lparr>start_time := 5000, end_time := 2005000\<rparr>"

text \<open>
  A speed test whose second stdio call comes back one byte short, with the stream's error
  indicator set and \<^verbatim>\<open>errno\<close> 5 (\<^verbatim>\<open>EIO\<close>).
\<close>

definition error_env :: test_env where
  "error_env = quiet_test_env\<lparr>stream := error_at 1\<rparr>"

section \<open>Invariants used in the proofs\<close>

text \<open>
  The invariant of a session without failure: the total is a multiple of the buffer size
  until the target is reached, and the calls made so far are the plan for that total.
\<close>

definition full_inv :: "nat \<Rightarrow> nat \<Rightarrow> session \<Rightarrow> bool" where
  "full_inv target buf s \<longleftrightarrow>
     \<not> broke s \<and> bytes_transferred s \<le> target
     \<and> (bytes_transferred s < target \<longrightarrow> bytes_transferred s mod buf = 0)
     \<and> io_calls (trace s) = map (\<lambda>n. (n, n)) (chunk_plan (bytes_transferred s) buf)"


text \<open>
  The invariant behind partial failure: while the loop has not broken, every call made
  returned what was asked and the total is their sum; once it has broken, the last call is
  the only one that did not, and the total is the sum of the calls before it.
\<close>

definition fail_inv :: "session \<Rightarrow> bool" where
  "fail_inv s \<longleftrightarrow>
     (let cs = io_calls (trace s) in
        (if broke s
         then cs \<noteq> [] \<and> snd (last cs) \<noteq> fst (last cs)
              \<and> (\<forall>c \<in> set (butlast cs). snd c = fst c)
              \<and> bytes_transferred s = sum_list (map snd (butlast cs))
         else (\<forall>c \<in> set cs. snd c = fst c)
              \<and> bytes_transferred s = sum_list (map snd cs)))"

text \<open>Every event of the loop is plain.\<close>

definition plain_inv :: "session \<Rightarrow> bool" where
  "plain_inv s \<longleftrightarrow> list_all plain_event (trace s)"

text \<open>
  The shape of the loop's trace: progress events only, followed, once the loop has broken,
  by the call that failed and the report of the failure.
\<close>

definition tail_inv :: "mode \<Rightarrow> session \<Rightarrow> bool" where
  "tail_inv m s \<longleftrightarrow>
     (if broke s
      then \<exists>pre to res. trace s = pre @ [xfer_event m to res]
                                     @ failure_logs m (bytes_transferred s) to res
             \<and> count res \<noteq> to \<and> list_all progress_event pre
      else list_all progress_event (trace s))"


section \<open>Properties of the transfer loop\<close>

lemma io_calls_append: "io_calls (xs @ ys) = io_calls xs @ io_calls ys"
  by (induction xs rule: io_calls.induct) simp_all

lemma io_calls_failure_logs: "io_calls (failure_logs m b t r) = []"
  by (cases m) (simp_all add: failure_logs_def)

lemma io_calls_progress_logs: "io_calls (progress_logs m b n t) = []"
  by (cases m) (simp_all add: progress_logs_def)

lemma io_calls_xfer_event: "io_calls [xfer_event m t r] = [(t, count r)]"
  by (cases m) (simp_all add: xfer_event_def)

lemma chunk_size_min: "chunk_size target buf bytes = min (target - bytes) buf"
  by (simp add: chunk_size_def Let_def min_def)

lemma chunk_size_pos:
  "0 < buf \<Longrightarrow> bytes < target \<Longrightarrow> 0 < chunk_size target buf bytes"
  by (simp add: chunk_size_min)

lemma step_progress:
  assumes "0 < buf" "bytes_transferred s < target"
    "\<not> broke (transfer_step m dev target buf s)"
  shows "target - bytes_transferred (transfer_step m dev target buf s)
           < target - bytes_transferred s"
  using assms chunk_size_pos [of buf "bytes_transferred s" target]
  by (auto simp: transfer_step_def Let_def chunk_size_min split: if_splits)

text \<open>
  The proof rule of the loop: with a positive buffer size it returns, and an invariant of
  the body holds of what it returns.
\<close>

lemma transfer_loop_rule:
  assumes buf: "0 < buf"
    and init: "P s" "\<not> broke s"
    and step: "\<And>s. P s \<Longrightarrow> \<not> broke s \<Longrightarrow> bytes_transferred s < target
                 \<Longrightarrow> P (transfer_step m dev target buf s)"
  shows "\<exists>r. transfer_loop m dev target buf s = Some r \<and> P r
           \<and> (broke r \<or> \<not> bytes_transferred r < target)"
  using init
proof (induction "target - bytes_transferred s" arbitrary: s rule: less_induct)
  case less
  show ?case
  proof (cases "bytes_transferred s < target")
    case False
    with less.prems show ?thesis
      by (subst transfer_loop.simps) simp
  next
    case True
    let ?s' = "transfer_step m dev target buf s"
    have P': "P ?s'" using step less.prems True by blast
    show ?thesis
    proof (cases "broke ?s'")
      case True
      with P' \<open>bytes_transferred s < target\<close> show ?thesis
        by (subst transfer_loop.simps) simp
    next
      case False
      have "target - bytes_transferred ?s' < target - bytes_transferred s"
        using step_progress [OF buf True False] .
      from less.hyps [OF this P' False]
      obtain r where "transfer_loop m dev target buf ?s' = Some r" "P r"
        "broke r \<or> \<not> bytes_transferred r < target" by blast
      with True False show ?thesis
        by (subst transfer_loop.simps) simp
    qed
  qed
qed


subsection \<open>Sessions in which every call succeeds\<close>

lemma io_calls_Cons: "io_calls (e # es) = io_calls [e] @ io_calls es"
  using io_calls_append [of "[e]" es] by simp

lemma step_ok:
  assumes "count (dev (ncalls s) (chunk_size target buf (bytes_transferred s)))
             = chunk_size target buf (bytes_transferred s)"
  shows "bytes_transferred (transfer_step m dev target buf s)
           = bytes_transferred s + chunk_size target buf (bytes_transferred s)"
    and "broke (transfer_step m dev target buf s) = broke s"
    and "io_calls (trace (transfer_step m dev target buf s))
           = io_calls (trace s) @ [(chunk_size target buf (bytes_transferred s),
                                    chunk_size target buf (bytes_transferred s))]"
  using assms
  by (simp_all add: transfer_step_def Let_def io_calls_append io_calls_xfer_event
      io_calls_progress_logs io_calls_Cons [of "xfer_event m t r" for t r])

lemma chunk_plan_full:
  assumes "0 < buf" "b mod buf = 0"
  shows "chunk_plan (b + buf) buf = chunk_plan b buf @ [buf]"
  using assms by (simp add: chunk_plan_def replicate_append_same)

lemma chunk_plan_last:
  assumes "0 < buf" "b mod buf = 0" "0 < r" "r < buf"
  shows "chunk_plan (b + r) buf = chunk_plan b buf @ [r]"
proof -
  have "(b + r) mod buf = r"
    using assms by (metis mod_add_left_eq add_0 mod_less)
  moreover have "(b + r) div buf = b div buf"
    using assms by (auto simp: mod_eq_0_iff_dvd)
  ultimately show ?thesis
    using assms by (simp add: chunk_plan_def)
qed

lemma full_inv_init: "full_inv target buf session_init"
  by (simp add: full_inv_def session_init_def chunk_plan_def)

lemma full_inv_step:
  assumes buf: "0 < buf" and dev: "\<forall>k n. count (dev k n) = n"
    and inv: "full_inv target buf s" and lt: "bytes_transferred s < target"
  shows "full_inv target buf (transfer_step m dev target buf s)"
proof -
  let ?b = "bytes_transferred s"
  let ?c = "chunk_size target buf ?b"
  have ok: "count (dev (ncalls s) ?c) = ?c"
    using dev by simp
  note st = step_ok [where dev = dev and s = s and target = target and buf = buf
      and m = m, OF ok]
  have m0: "?b mod buf = 0"
    using inv lt by (simp add: full_inv_def)
  have calls: "io_calls (trace s) = map (\<lambda>n. (n, n)) (chunk_plan ?b buf)"
    using inv by (simp add: full_inv_def)
  have nb: "\<not> broke s"
    using inv by (simp add: full_inv_def)
  show ?thesis
  proof (cases "buf \<le> target - ?b")
    case True
    then have c: "?c = buf"
      by (auto simp: chunk_size_min)
    have "(?b + buf) mod buf = 0"
      using m0 by simp
    with True lt nb calls chunk_plan_full [OF buf m0] show ?thesis
      by (auto simp: full_inv_def st c)
  next
    case False
    then have c: "?c = target - ?b"
      by (auto simp: chunk_size_min)
    have "0 < target - ?b" "target - ?b < buf"
      using False lt by auto
    from chunk_plan_last [OF buf m0 this] lt nb calls show ?thesis
      by (auto simp: full_inv_def st c)
  qed
qed

lemma transfer_loop_full:
  assumes "0 < buf" and "\<forall>k n. count (dev k n) = n"
  shows "\<exists>r. transfer_loop m dev target buf session_init = Some r
           \<and> \<not> broke r \<and> bytes_transferred r = target
           \<and> io_calls (trace r) = map (\<lambda>n. (n, n)) (chunk_plan target buf)"
proof -
  from transfer_loop_rule [where P = "full_inv target buf", OF assms(1) full_inv_init _
      full_inv_step [OF assms]]
  obtain r where r: "transfer_loop m dev target buf session_init = Some r"
    "full_inv target buf r" "broke r \<or> \<not> bytes_transferred r < target"
    by (auto simp: session_init_def)
  then have "bytes_transferred r = target"
    by (auto simp: full_inv_def)
  with r show ?thesis
    by (auto simp: full_inv_def)
qed

lemma chunk_plan_macros: "chunk_plan TEST_FILE_SIZE TEST_BUFFER_SIZE = replicate 32 131072"
  by (simp add: chunk_plan_def TEST_FILE_SIZE_def TEST_BUFFER_SIZE_def)

text \<open>
  Claim C1. In a transfer session, write or read, each chunk is
  \<open>min (target - bytes_transferred) buffer_size\<close>. When every call transfers what it
  was asked, the session returns with \<open>bytes_transferred = target\<close>, not failed,
  after \<open>target div buffer_size\<close> calls of exactly \<open>buffer_size\<close> bytes, followed,
  when the target is not a multiple of the buffer size, by one call of
  \<open>target mod buffer_size\<close> bytes. With the configured buffer of 131072 bytes and
  target of 4194304 bytes these are exactly 32 full chunks.
\<close>

theorem C1_chunking:
  assumes "0 < buf" and "\<forall>k n. count (dev k n) = n"
  shows "(\<forall>b. chunk_size target buf b = min (target - b) buf)
    \<and> (\<exists>r. transfer_loop m dev target buf session_init = Some r
           \<and> \<not> broke r \<and> bytes_transferred r = target
           \<and> map fst (io_calls (trace r))
               = replicate (target div buf) buf
                 @ (if target mod buf = 0 then [] else [target mod buf])
           \<and> map snd (io_calls (trace r)) = map fst (io_calls (trace r)))
    \<and> (\<exists>r. transfer_loop m dev TEST_FILE_SIZE TEST_BUFFER_SIZE session_init = Some r
           \<and> \<not> broke r \<and> bytes_transferred r = 4194304
           \<and> io_calls (trace r) = replicate 32 (131072, 131072))"
proof (intro conjI allI)
  fix b show "chunk_size target buf b = min (target - b) buf"
    by (rule chunk_size_min)
next
  from transfer_loop_full [OF assms, of m target]
  obtain r where r: "transfer_loop m dev target buf session_init = Some r"
    "\<not> broke r" "bytes_transferred r = target"
    "io_calls (trace r) = map (\<lambda>n. (n, n)) (chunk_plan target buf)"
    by blast
  have f: "map fst (io_calls (trace r)) = chunk_plan target buf"
    by (simp add: r(4) comp_def)
  have "map snd (io_calls (trace r)) = map fst (io_calls (trace r))"
    by (simp add: r(4) comp_def)
  with f r(1-3) show "\<exists>r. transfer_loop m dev target buf session_init = Some r
           \<and> \<not> broke r \<and> bytes_transferred r = target
           \<and> map fst (io_calls (trace r))
               = replicate (target div buf) buf
                 @ (if target mod buf = 0 then [] else [target mod buf])
           \<and> map snd (io_calls (trace r)) = map fst (io_calls (trace r))"
    unfolding chunk_plan_def by blast
next
  have "0 < TEST_BUFFER_SIZE"
    by (simp add: TEST_BUFFER_SIZE_def)
  moreover have "TEST_FILE_SIZE = 4194304"
    by (simp add: TEST_FILE_SIZE_def)
  moreover have "map (\<lambda>n. (n, n)) (chunk_plan TEST_FILE_SIZE TEST_BUFFER_SIZE)
                   = replicate 32 (131072, 131072)"
    by (simp add: chunk_plan_macros)
  moreover note transfer_loop_full [OF \<open>0 < TEST_BUFFER_SIZE\<close> assms(2), of m TEST_FILE_SIZE]
  ultimately show "\<exists>r. transfer_loop m dev TEST_FILE_SIZE TEST_BUFFER_SIZE session_init = Some r
           \<and> \<not> broke r \<and> bytes_transferred r = 4194304
           \<and> io_calls (trace r) = replicate 32 (131072, 131072)"
    by metis
qed

theorem C1_chunking_witness:
  "0 < (4::nat) \<and> (\<forall>k n. count (ideal_device k n) = n)
   \<and> (\<exists>r. transfer_loop WriteMode ideal_device 10 4 session_init = Some r
          \<and> \<not> broke r \<and> bytes_transferred r = 10
          \<and> map fst (io_calls (trace r)) = [4, 4, 2])"
proof -
  have h: "\<forall>k n. count (ideal_device k n) = n"
    by (simp add: ideal_device_def)
  have "replicate (10 div 4) (4::nat) @ (if (10::nat) mod 4 = 0 then [] else [10 mod 4])
          = [4, 4, 2]"
    by (simp add: numeral_2_eq_2)
  with C1_chunking [of 4 ideal_device 10 WriteMode] h show ?thesis
    by auto
qed

subsection \<open>Sessions with a short transfer\<close>

lemmas eval_defs = transfer_step_def Let_def session_init_def chunk_size_def short_at_def
  error_at_def ideal_device_def xfer_event_def failure_logs_def progress_logs_def

lemma step_calls:
  "io_calls (trace (transfer_step m dev target buf s))
     = io_calls (trace s) @ [(chunk_size target buf (bytes_transferred s),
          count (dev (ncalls s) (chunk_size target buf (bytes_transferred s))))]"
  by (simp add: transfer_step_def Let_def io_calls_append io_calls_xfer_event
      io_calls_progress_logs io_calls_failure_logs io_calls_Cons [of "xfer_event m t r" for t r])

lemma step_broke:
  "broke (transfer_step m dev target buf s) \<longleftrightarrow> broke s \<or>
     count (dev (ncalls s) (chunk_size target buf (bytes_transferred s)))
       \<noteq> chunk_size target buf (bytes_transferred s)"
  by (simp add: transfer_step_def Let_def)

lemma step_fail_bytes:
  "count (dev (ncalls s) (chunk_size target buf (bytes_transferred s)))
       \<noteq> chunk_size target buf (bytes_transferred s)
   \<Longrightarrow> bytes_transferred (transfer_step m dev target buf s) = bytes_transferred s"
  by (simp add: transfer_step_def Let_def)

lemma not_broke_init: "\<not> broke session_init"
  by (simp add: session_init_def)

lemma fail_inv_init: "fail_inv session_init"
  by (simp add: fail_inv_def session_init_def)

lemma fail_inv_step:
  assumes "fail_inv s" "\<not> broke s"
  shows "fail_inv (transfer_step m dev target buf s)"
proof (cases "count (dev (ncalls s) (chunk_size target buf (bytes_transferred s)))
       = chunk_size target buf (bytes_transferred s)")
  case True
  from step_ok [where dev = dev and s = s and target = target and buf = buf and m = m, OF True]
    assms show ?thesis
    by (simp add: fail_inv_def Let_def)
next
  case False
  with assms show ?thesis
    by (simp add: fail_inv_def Let_def step_calls step_broke step_fail_bytes)
qed

lemma fail_inv_short:
  assumes inv: "fail_inv s" and k: "k < length (io_calls (trace s))"
    and short: "snd (io_calls (trace s) ! k) \<noteq> fst (io_calls (trace s) ! k)"
  shows "broke s \<and> Suc k = length (io_calls (trace s))
         \<and> bytes_transferred s = sum_list (map snd (take k (io_calls (trace s))))
         \<and> (\<forall>j<k. snd (io_calls (trace s) ! j) = fst (io_calls (trace s) ! j))"
proof -
  let ?cs = "io_calls (trace s)"
  have b: "broke s"
  proof (rule ccontr)
    assume "\<not> broke s"
    with inv have "\<forall>c \<in> set ?cs. snd c = fst c"
      by (simp add: fail_inv_def Let_def)
    with k short show False
      by (meson nth_mem)
  qed
  with inv have pre: "\<forall>c \<in> set (butlast ?cs). snd c = fst c"
    and tot: "bytes_transferred s = sum_list (map snd (butlast ?cs))"
    by (simp_all add: fail_inv_def Let_def)
  have full: "snd (?cs ! j) = fst (?cs ! j)" if "j < length (butlast ?cs)" for j
  proof -
    from that have "butlast ?cs ! j \<in> set (butlast ?cs)" "butlast ?cs ! j = ?cs ! j"
      by (rule nth_mem, rule nth_butlast)
    with pre show ?thesis
      by metis
  qed
  have klast: "Suc k = length ?cs"
  proof (rule ccontr)
    assume "Suc k \<noteq> length ?cs"
    with k have "k < length (butlast ?cs)"
      by simp
    from full [OF this] short show False
      by simp
  qed
  then have "k = length ?cs - 1"
    by simp
  then have tk: "take k ?cs = butlast ?cs"
    by (simp add: butlast_conv_take)
  have "\<forall>j<k. snd (?cs ! j) = fst (?cs ! j)"
    using full klast by simp
  with b klast tot tk show ?thesis
    by simp
qed

text \<open>
  Claim C2. In every transfer session with a positive buffer size, whatever the stream
  does, the loop returns, and if some call of the session transferred fewer bytes than it
  was asked, then the session has failed (the loop was left by \<^verbatim>\<open>break\<close>), that call
  is the last one made, every call before it transferred what it was asked, and
  \<open>bytes_transferred\<close> is the sum of those earlier calls: the short one is not counted.
\<close>

theorem C2_short_transfer_fails:
  assumes "0 < buf"
  shows "\<exists>r. transfer_loop m dev target buf session_init = Some r
     \<and> (\<forall>k < length (io_calls (trace r)).
          snd (io_calls (trace r) ! k) < fst (io_calls (trace r) ! k) \<longrightarrow>
            broke r \<and> Suc k = length (io_calls (trace r))
            \<and> bytes_transferred r = sum_list (map snd (take k (io_calls (trace r))))
            \<and> (\<forall>j<k. snd (io_calls (trace r) ! j) = fst (io_calls (trace r) ! j)))"
proof -
  from transfer_loop_rule [where P = fail_inv, OF assms fail_inv_init not_broke_init
      fail_inv_step]
  obtain r where r: "transfer_loop m dev target buf session_init = Some r" "fail_inv r"
    by blast
  from fail_inv_short [OF r(2)] r(1) show ?thesis
    by (metis less_irrefl)
qed

theorem C2_short_transfer_fails_witness:
  "0 < (4::nat)
   \<and> (\<exists>r. transfer_loop WriteMode (short_at 1) 10 4 session_init = Some r
          \<and> io_calls (trace r) = [(4, 4), (4, 3)]
          \<and> 1 < length (io_calls (trace r))
          \<and> snd (io_calls (trace r) ! 1) < fst (io_calls (trace r) ! 1)
          \<and> broke r \<and> bytes_transferred r = 4)"
proof -
  have ev: "map_option (\<lambda>r. io_calls (trace r))
              (transfer_loop WriteMode (short_at 1) 10 4 session_init)
            = Some [(4, 4), (4, 3)]"
    by (simp add: transfer_loop.simps eval_defs)
  from C2_short_transfer_fails [of 4 WriteMode "short_at 1" 10]
  obtain r where r: "transfer_loop WriteMode (short_at 1) 10 4 session_init = Some r"
    and imp: "\<forall>k < length (io_calls (trace r)).
          snd (io_calls (trace r) ! k) < fst (io_calls (trace r) ! k) \<longrightarrow>
            broke r \<and> Suc k = length (io_calls (trace r))
            \<and> bytes_transferred r = sum_list (map snd (take k (io_calls (trace r))))
            \<and> (\<forall>j<k. snd (io_calls (trace r) ! j) = fst (io_calls (trace r) ! j))"
    by auto
  from ev r have cs: "io_calls (trace r) = [(4, 4), (4, 3)]"
    by simp
  from imp [rule_format, of 1] cs have "broke r \<and> bytes_transferred r = 4"
    by simp
  with r cs show ?thesis
    by simp
qed

subsection \<open>The running total\<close>

lemma step_bounds:
  assumes "bytes_transferred s \<le> target"
  shows "bytes_transferred s \<le> bytes_transferred (transfer_step m dev target buf s)"
    and "bytes_transferred (transfer_step m dev target buf s) \<le> target"
  using assms by (auto simp: transfer_step_def Let_def chunk_size_min)

lemma reach_le: "session_reach m dev target buf s \<Longrightarrow> bytes_transferred s \<le> target"
  by (induction rule: session_reach.induct) (simp_all add: session_init_def step_bounds)

lemma transfer_loop_reach:
  assumes "0 < buf"
  shows "\<exists>r. transfer_loop m dev target buf session_init = Some r
           \<and> session_reach m dev target buf r"
proof -
  from transfer_loop_rule [where P = "session_reach m dev target buf", OF assms
      session_reach.start not_broke_init session_reach.iter]
  show ?thesis
    by blast
qed

text \<open>
  Claim C8. At every head of the loop during a session, \<open>bytes_transferred\<close> is at
  most the target, and one more run of the body neither decreases it nor takes it over the
  target. With a positive buffer size the state the loop returns is such a state.
\<close>

theorem C8_total_monotone_bounded:
  assumes "session_reach m dev target buf s"
  shows "bytes_transferred s \<le> target
    \<and> bytes_transferred s \<le> bytes_transferred (transfer_step m dev target buf s)
    \<and> bytes_transferred (transfer_step m dev target buf s) \<le> target
    \<and> (0 < buf \<longrightarrow> (\<exists>r. transfer_loop m dev target buf session_init = Some r
                        \<and> session_reach m dev target buf r
                        \<and> bytes_transferred r \<le> target))"
proof -
  have le: "bytes_transferred s \<le> target"
    using assms by (rule reach_le)
  have "\<exists>r. transfer_loop m dev target buf session_init = Some r
           \<and> session_reach m dev target buf r \<and> bytes_transferred r \<le> target"
    if "0 < buf"
    using transfer_loop_reach [OF that, of m dev target] reach_le by blast
  with le step_bounds [OF le] show ?thesis
    by blast
qed

theorem C8_total_monotone_bounded_witness:
  "session_reach ReadMode ideal_device 10 4 (transfer_step ReadMode ideal_device 10 4 session_init)
   \<and> bytes_transferred (transfer_step ReadMode ideal_device 10 4 session_init) = 4
   \<and> bytes_transferred (transfer_step ReadMode ideal_device 10 4
        (transfer_step ReadMode ideal_device 10 4 session_init)) = 8
   \<and> 0 < (4::nat)
   \<and> (\<exists>r. transfer_loop ReadMode ideal_device 10 4 session_init = Some r
          \<and> bytes_transferred r \<le> 10)"
proof -
  have r: "session_reach ReadMode ideal_device 10 4
             (transfer_step ReadMode ideal_device 10 4 session_init)"
    by (rule session_reach.iter [OF session_reach.start]) (simp_all add: session_init_def)
  have "bytes_transferred (transfer_step ReadMode ideal_device 10 4 session_init) = 4"
    "bytes_transferred (transfer_step ReadMode ideal_device 10 4
        (transfer_step ReadMode ideal_device 10 4 session_init)) = 8"
    by (simp_all add: eval_defs)
  with r C8_total_monotone_bounded [OF r] show ?thesis
    by auto
qed

section \<open>Properties of the buffer fill\<close>

lemma and_255_mod: "(i::nat) AND 0xFF = i mod 256"
proof -
  have "i AND 0xFF = i AND mask 8"
    by (simp add: mask_eq_exp_minus_1)
  also have "\<dots> = take_bit 8 i"
    by (simp add: take_bit_eq_mask)
  also have "\<dots> = i mod 256"
    by (simp add: take_bit_eq_mod)
  finally show ?thesis .
qed

lemma fill_loop_length: "length (fill_loop i n buffer) = length buffer"
proof (induction i n buffer rule: fill_loop.induct)
  case (1 i n buffer)
  then show ?case
    by (subst fill_loop.simps) simp
qed

lemma fill_loop_nth:
  assumes "length buffer = n" "j < n"
  shows "fill_loop i n buffer ! j = (if i \<le> j then of_nat (j mod 256) else buffer ! j)"
  using assms
proof (induction i n buffer rule: fill_loop.induct)
  case (1 i n buffer)
  show ?case
  proof (cases "i < n")
    case True
    have "fill_loop i n buffer = fill_loop (i + 1) n (buffer[i := of_nat (i AND 0xFF)])"
      using True by (subst fill_loop.simps) simp
    moreover have "fill_loop (i + 1) n (buffer[i := of_nat (i AND 0xFF)]) ! j
        = (if i + 1 \<le> j then of_nat (j mod 256) else buffer[i := of_nat (i AND 0xFF)] ! j)"
      using "1.IH" [OF True] "1.prems" by simp
    ultimately show ?thesis
      using "1.prems" True by (cases "i = j") (auto simp: and_255_mod nth_list_update)
  next
    case False
    with "1.prems" show ?thesis
      by (subst fill_loop.simps) simp
  qed
qed

text \<open>
  Claim C9. Filling a buffer of \<open>n\<close> bytes leaves a buffer of \<open>n\<close> bytes in which
  every byte is its index modulo 256. The result is a function of \<open>n\<close> alone (it does
  not depend on what the buffer held), and the fill is a pure function: it takes no
  stream and produces no event.
\<close>

theorem C9_fill_pattern:
  assumes "length buffer = n"
  shows "length (fill_buffer n buffer) = n
    \<and> (\<forall>i<n. unat (fill_buffer n buffer ! i) = i mod 256)
    \<and> fill_buffer n buffer = map (\<lambda>i. of_nat (i mod 256)) [0..<n]"
proof -
  have len: "length (fill_buffer n buffer) = n"
    using assms by (simp add: fill_buffer_def fill_loop_length)
  have nth: "fill_buffer n buffer ! i = of_nat (i mod 256)" if "i < n" for i
    using fill_loop_nth [OF assms that, of 0] by (simp add: fill_buffer_def)
  have "unat (fill_buffer n buffer ! i) = i mod 256" if "i < n" for i
  proof -
    have "unat (of_nat (i mod 256) :: 8 word) = i mod 256"
      by (simp add: unat_of_nat)
    with nth [OF that] show ?thesis
      by simp
  qed
  moreover have "fill_buffer n buffer = map (\<lambda>i. of_nat (i mod 256)) [0..<n]"
    by (rule nth_equalityI) (simp_all add: len nth)
  ultimately show ?thesis
    using len by blast
qed

theorem C9_fill_pattern_witness:
  "length [7, 7, 7 :: 8 word] = 3
   \<and> fill_buffer 3 [7, 7, 7] = [0, 1, 2]
   \<and> unat (fill_buffer 3 [7, 7, 7 :: 8 word] ! 2) = 2 mod 256"
proof -
  have "length [7, 7, 7 :: 8 word] = 3"
    by simp
  from C9_fill_pattern [OF this] show ?thesis
    by (simp add: upt_rec numeral_3_eq_3)
qed

section \<open>Properties of the smoke test's line\<close>

lemma fgets_chars_line:
  assumes "CHR 0x0A \<notin> set S"
  shows "fgets_chars n (S @ [CHR 0x0A]) = (if length S < n then S @ [CHR 0x0A] else take n S)"
  using assms
proof (induction n arbitrary: S)
  case 0
  then show ?case
    by simp
next
  case (Suc n)
  then show ?case
    by (cases S) auto
qed

lemma cstr_id: "CHR 0x00 \<notin> set s \<Longrightarrow> cstr s = s"
  by (auto simp: cstr_def)

lemma strip_newline_line:
  assumes "CHR 0x0A \<notin> set S"
  shows "strip_newline (S @ [CHR 0x0A]) = S"
proof -
  have "takeWhile (\<lambda>x. x \<noteq> CHR 0x0A) (S @ [CHR 0x0A]) = S"
    using assms by (induction S) auto
  then show ?thesis
    by (simp add: strip_newline_def strchr_def)
qed

lemma strip_newline_none: "CHR 0x0A \<notin> set s \<Longrightarrow> strip_newline s = s"
  by (simp add: strip_newline_def strchr_def)

lemma smoke_read_line_take:
  assumes "CHR 0x0A \<notin> set S" and "CHR 0x00 \<notin> set S"
  shows "smoke_read_line (S @ [CHR 0x0A]) line0 = take 63 S"
proof -
  have rd: "fgets 64 (S @ [CHR 0x0A]) line0
              = cstr (if length S < 63 then S @ [CHR 0x0A] else take 63 S)"
    using fgets_chars_line [OF assms(1), of 63] by (simp add: fgets_def)
  show ?thesis
  proof (cases "length S < 63")
    case True
    have "CHR 0x00 \<notin> set (S @ [CHR 0x0A])"
      using assms(2) by simp
    then have "cstr (S @ [CHR 0x0A]) = S @ [CHR 0x0A]"
      by (rule cstr_id)
    with True rd strip_newline_line [OF assms(1)] show ?thesis
      by (simp add: smoke_read_line_def)
  next
    case False
    have "CHR 0x00 \<notin> set (take 63 S)" "CHR 0x0A \<notin> set (take 63 S)"
      using assms by (auto dest: in_set_takeD)
    then have "cstr (take 63 S) = take 63 S" "strip_newline (take 63 S) = take 63 S"
      by (simp_all add: cstr_id strip_newline_none)
    with False rd show ?thesis
      by (simp add: smoke_read_line_def)
  qed
qed

text \<open>
  Claim C7, amended. For every C string \<open>S\<close> (no NUL byte) without newline, writing
  \<open>S\<close> followed by a newline and reading it back with the smoke test's bounded
  \<^verbatim>\<open>fgets\<close> and strip yields the first 63 characters of \<open>S\<close>: exactly \<open>S\<close>
  when \<open>S\<close> has at most 63 characters, a truncation otherwise.
\<close>

theorem C7_roundtrip_bounded:
  assumes "CHR 0x0A \<notin> set S" and "CHR 0x00 \<notin> set S"
  shows "smoke_read_line (S @ [CHR 0x0A]) line0 = take 63 S
    \<and> (length S \<le> 63 \<longrightarrow> smoke_read_line (S @ [CHR 0x0A]) line0 = S)"
  using smoke_read_line_take [OF assms, of line0] by simp

theorem C7_roundtrip_bounded_witness:
  "CHR 0x0A \<notin> set ''Hello SD16G!'' \<and> CHR 0x00 \<notin> set ''Hello SD16G!''
   \<and> length ''Hello SD16G!'' \<le> 63
   \<and> smoke_read_line (''Hello SD16G!'' @ [CHR 0x0A]) ''junk'' = ''Hello SD16G!''"
  using C7_roundtrip_bounded [of "''Hello SD16G!''" "''junk''"] by simp

text \<open>
  The claim as stated fails at a line of 64 characters: the 64-byte array takes 63 of them.
\<close>

theorem C7_roundtrip_counterexample:
  "CHR 0x0A \<notin> set (replicate 64 (CHR ''a''))
   \<and> smoke_read_line (replicate 64 (CHR ''a'') @ [CHR 0x0A]) [] = replicate 63 (CHR ''a'')
   \<and> smoke_read_line (replicate 64 (CHR ''a'') @ [CHR 0x0A]) [] \<noteq> replicate 64 (CHR ''a'')"
proof -
  have nl: "CHR 0x0A \<notin> set (replicate 64 (CHR ''a''))"
    by simp
  have raw: "fgets_chars 63 (replicate 64 (CHR ''a'') @ [CHR 0x0A]) = replicate 63 (CHR ''a'')"
    by code_simp
  have "cstr (replicate 63 (CHR ''a'')) = replicate 63 (CHR ''a'')"
    by (simp add: cstr_def)
  moreover have "strip_newline (replicate 63 (CHR ''a'')) = replicate 63 (CHR ''a'')"
    by (simp add: strip_newline_def strchr_def)
  ultimately have "smoke_read_line (replicate 64 (CHR ''a'') @ [CHR 0x0A]) []
                     = replicate 63 (CHR ''a'')"
    using raw by (simp add: smoke_read_line_def fgets_def)
  moreover have "replicate 63 (CHR ''a'') \<noteq> replicate 64 (CHR ''a'')"
  proof
    assume "replicate 63 (CHR ''a'') = replicate 64 (CHR ''a'')"
    then have "length (replicate 63 (CHR ''a'')) = length (replicate 64 (CHR ''a''))"
      by (rule arg_cong)
    then show False
      by simp
  qed
  ultimately show ?thesis
    using nl by simp
qed

section \<open>Properties of the program's exits\<close>

text \<open>
  Claim C4 fails on the program. When the card has mounted and the first \<^verbatim>\<open>fopen\<close>
  fails, \<^verbatim>\<open>app_main\<close> returns after logging the failure: the run mounts and never
  unmounts. Both versions of \<^verbatim>\<open>app_main\<close> do so.
\<close>

theorem C4_open_failure_leaks_mount:
  "app_main open_fails_env
     = Some [Log LOGI Initializing_SD_card, Log LOGI Using_SDMMC_peripheral,
             Log LOGI Mounting_filesystem, Mount ESP_OK, Log LOGI Filesystem_mounted,
             Card_print_info, Log LOGI (Opening_file ''/sdcard/hello.txt''),
             Fopen ''/sdcard/hello.txt'' ''w'' False,
             Log LOGE Failed_to_open_file_for_writing_hello]
   \<and> app_main_basic open_fails_env = app_main open_fails_env"
  by (simp add: app_main_def app_main_basic_def app_main_with_def open_fails_env_def
      quiet_env_def file_hello_def)

text \<open>The same happens when the \<^verbatim>\<open>rename\<close> or the second \<^verbatim>\<open>fopen\<close> fails.\<close>

lemma rename_failure_leaks_mount:
  "app_main rename_fails_env
     = Some [Log LOGI Initializing_SD_card, Log LOGI Using_SDMMC_peripheral,
             Log LOGI Mounting_filesystem, Mount ESP_OK, Log LOGI Filesystem_mounted,
             Card_print_info, Log LOGI (Opening_file ''/sdcard/hello.txt''),
             Fopen ''/sdcard/hello.txt'' ''w'' True,
             Fprintf (''Hello SD16G!'' @ [CHR 0x0A]), Fclose, Log LOGI File_written,
             Stat ''/sdcard/foo.txt'' False,
             Log LOGI (Renaming_file ''/sdcard/hello.txt'' ''/sdcard/foo.txt''),
             Rename ''/sdcard/hello.txt'' ''/sdcard/foo.txt'' (- 1),
             Log LOGE Rename_failed]"
  by (simp add: app_main_def app_main_with_def rename_fails_env_def quiet_env_def
      file_hello_def file_foo_def hello_line_def cstr_def)

lemma reopen_failure_leaks_mount:
  "app_main reopen_fails_env
     = Some [Log LOGI Initializing_SD_card, Log LOGI Using_SDMMC_peripheral,
             Log LOGI Mounting_filesystem, Mount ESP_OK, Log LOGI Filesystem_mounted,
             Card_print_info, Log LOGI (Opening_file ''/sdcard/hello.txt''),
             Fopen ''/sdcard/hello.txt'' ''w'' True,
             Fprintf (''Hello SD16G!'' @ [CHR 0x0A]), Fclose, Log LOGI File_written,
             Stat ''/sdcard/foo.txt'' False,
             Log LOGI (Renaming_file ''/sdcard/hello.txt'' ''/sdcard/foo.txt''),
             Rename ''/sdcard/hello.txt'' ''/sdcard/foo.txt'' 0,
             Log LOGI (Reading_file ''/sdcard/foo.txt''),
             Fopen ''/sdcard/foo.txt'' ''r'' False,
             Log LOGE Failed_to_open_file_for_reading_foo]"
  by (simp add: app_main_def app_main_with_def reopen_fails_env_def quiet_env_def
      file_hello_def file_foo_def hello_line_def cstr_def)

text \<open>When nothing fails, the version without speed tests unmounts, once, at its end.\<close>

lemma basic_success_unmounts:
  "app_main_basic quiet_env
     = Some [Log LOGI Initializing_SD_card, Log LOGI Using_SDMMC_peripheral,
             Log LOGI Mounting_filesystem, Mount ESP_OK, Log LOGI Filesystem_mounted,
             Card_print_info, Log LOGI (Opening_file ''/sdcard/hello.txt''),
             Fopen ''/sdcard/hello.txt'' ''w'' True,
             Fprintf (''Hello SD16G!'' @ [CHR 0x0A]), Fclose, Log LOGI File_written,
             Stat ''/sdcard/foo.txt'' False,
             Log LOGI (Renaming_file ''/sdcard/hello.txt'' ''/sdcard/foo.txt''),
             Rename ''/sdcard/hello.txt'' ''/sdcard/foo.txt'' 0,
             Log LOGI (Reading_file ''/sdcard/foo.txt''),
             Fopen ''/sdcard/foo.txt'' ''r'' True,
             Fgets 64, Fclose, Log LOGI (Read_from_file ''Hello SD16G!''),
             Unmount, Log LOGI Card_unmounted]"
proof -
  have "hello_line ''SD16G'' = ''Hello SD16G!'' @ [CHR 0x0A]"
    by (simp add: hello_line_def cstr_def)
  moreover have "smoke_read_line (''Hello SD16G!'' @ [CHR 0x0A]) [] = ''Hello SD16G!''"
    using smoke_read_line_take [of "''Hello SD16G!''" "[]"] by simp
  ultimately show ?thesis
    by (simp add: app_main_basic_def app_main_with_def quiet_env_def file_hello_def
        file_foo_def)
qed

text \<open>
  The exits of the program in general: the mount is released, once, only on the path on
  which every file operation of the smoke test succeeded.
\<close>

lemma app_main_with_unmounts:
  assumes "mount_ret env = ESP_OK"
  shows "\<exists>tr. app_main_with (Some ts) env = Some tr \<and> Mount ESP_OK \<in> set tr
     \<and> count_list tr Unmount
         = (if hello_fopen_ok env \<and> rename_ret env = 0 \<and> foo_fopen_ok env
            then 1 + count_list ts Unmount else 0)"
  using assms by (simp add: app_main_with_def Let_def)

section \<open>Properties of the machine arithmetic\<close>

lemma two_powi_mono: "m \<le> n \<Longrightarrow> (2::rat) powi m \<le> 2 powi n"
  by (rule power_int_increasing) simp_all

lemma two_powi_less_exp:
  assumes "(2::rat) powi m < 2 powi n"
  shows "m < n"
proof (rule ccontr)
  assume "\<not> m < n"
  then have "(2::rat) powi n \<le> 2 powi m"
    by (intro two_powi_mono) simp
  with assms show False
    by simp
qed

lemma two_powi_Suc: "(2::rat) powi (e + 1) = 2 * 2 powi e"
  by (simp add: power_int_add)

lemma ilog2_bounds:
  assumes "0 < x"
  shows "2 powi (ilog2 x) \<le> x \<and> x < 2 powi (ilog2 x + 1)"
proof (cases "1 \<le> x")
  case True
  let ?n = "\<lfloor>x\<rfloor>"
  have n: "0 < ?n"
    using True by simp
  from bitlen_bounds [OF n] have lo: "2 ^ nat (bitlen ?n - 1) \<le> ?n"
    and hi: "?n < 2 ^ nat (bitlen ?n)"
    by simp_all
  have b1: "1 \<le> bitlen ?n"
    using n bitlen_eq_zero_iff [of ?n] bitlen_nonneg [of ?n] by linarith
  have e: "ilog2 x = bitlen ?n - 1"
    using True by (simp add: ilog2_def)
  have "(2::rat) powi (bitlen ?n - 1) = of_int (2 ^ nat (bitlen ?n - 1))"
    using b1 by (simp add: power_int_nonneg_exp)
  also have "\<dots> \<le> of_int ?n"
    using lo by (simp only: of_int_le_iff)
  also have "\<dots> \<le> x"
    by simp
  finally have 1: "2 powi (ilog2 x) \<le> x"
    by (simp add: e)
  have "?n + 1 \<le> 2 ^ nat (bitlen ?n)"
    using hi by simp
  then have "(of_int (?n + 1) :: rat) \<le> of_int (2 ^ nat (bitlen ?n))"
    by (simp only: of_int_le_iff)
  moreover have "x < of_int (?n + 1)"
    by linarith
  moreover have "(2::rat) powi (bitlen ?n - 1 + 1) = of_int (2 ^ nat (bitlen ?n))"
    using b1 by (simp add: power_int_nonneg_exp)
  ultimately have 2: "x < 2 powi (ilog2 x + 1)"
    by (simp add: e)
  from 1 2 show ?thesis ..
next
  case False
  let ?c = "\<lceil>1 / x\<rceil>"
  let ?m = "?c - 1"
  let ?k = "bitlen ?m"
  have ix: "1 < 1 / x"
    using False assms by simp
  then have m: "0 < ?m"
    by (simp add: less_ceiling_iff)
  from bitlen_bounds [OF m] have lo: "2 ^ nat (?k - 1) \<le> ?m" and hi: "?m < 2 ^ nat ?k"
    by simp_all
  have k1: "1 \<le> ?k"
    using m bitlen_eq_zero_iff [of ?m] bitlen_nonneg [of ?m] by linarith
  have e: "ilog2 x = - ?k"
    using False by (simp add: ilog2_def)
  have "?c \<le> 2 ^ nat ?k"
    using hi by simp
  then have "(of_int ?c :: rat) \<le> of_int (2 ^ nat ?k)"
    by (simp only: of_int_le_iff)
  moreover have "1 / x \<le> of_int ?c"
    by (rule le_of_int_ceiling)
  ultimately have "1 / x \<le> of_int (2 ^ nat ?k)"
    by (rule order_trans [rotated])
  then have "1 / x \<le> 2 ^ nat ?k"
    by simp
  then have "1 \<le> x * 2 ^ nat ?k"
    using assms by (simp add: field_simps)
  then have "1 / 2 ^ nat ?k \<le> x"
    by (simp add: field_simps)
  moreover have "(2::rat) powi (- ?k) = 1 / 2 ^ nat ?k"
    using k1 by (simp add: power_int_minus_divide power_int_nonneg_exp)
  ultimately have 1: "2 powi (ilog2 x) \<le> x"
    by (simp add: e)
  have "(of_int (2 ^ nat (?k - 1)) :: rat) \<le> of_int ?m"
    using lo by (simp only: of_int_le_iff)
  moreover have "of_int ?m < 1 / x"
    by linarith
  ultimately have "(2::rat) ^ nat (?k - 1) < 1 / x"
    by simp
  then have "x * 2 ^ nat (?k - 1) < 1"
    using assms by (simp add: field_simps)
  then have "x < 1 / 2 ^ nat (?k - 1)"
    by (simp add: field_simps)
  moreover have "(2::rat) powi (- ?k + 1) = 1 / 2 ^ nat (?k - 1)"
  proof -
    have "- ?k + 1 = - (?k - 1)"
      by simp
    then show ?thesis
      using k1 by (simp only: power_int_minus_divide) (simp add: power_int_nonneg_exp)
  qed
  ultimately have 2: "x < 2 powi (ilog2 x + 1)"
    by (simp add: e)
  from 1 2 show ?thesis ..
qed

lemma ilog2_range:
  assumes "2 powi lo \<le> x" "x \<le> 2 powi hi"
  shows "lo \<le> ilog2 x" "ilog2 x \<le> hi"
proof -
  have pos: "0 < x"
    using assms(1) by (rule less_le_trans [rotated]) simp
  from ilog2_bounds [OF pos] have b: "2 powi (ilog2 x) \<le> x" "x < 2 powi (ilog2 x + 1)"
    by simp_all
  from assms(1) b(2) have "(2::rat) powi lo < 2 powi (ilog2 x + 1)"
    by simp
  then show "lo \<le> ilog2 x"
    using two_powi_less_exp by fastforce
  show "ilog2 x \<le> hi"
  proof (rule ccontr)
    assume "\<not> ilog2 x \<le> hi"
    then have "(2::rat) powi (hi + 1) \<le> 2 powi (ilog2 x)"
      by (intro two_powi_mono) simp
    moreover have "(2::rat) powi hi < 2 powi (hi + 1)"
      by (rule power_int_strict_increasing) simp_all
    ultimately show False
      using b(1) assms(2) by simp
  qed
qed

lemma rne_error: "\<bar>of_int (rne z) - z\<bar> \<le> 1 / 2"
proof -
  have "of_int \<lfloor>z\<rfloor> \<le> z" "z < of_int \<lfloor>z\<rfloor> + 1"
    by linarith+
  then show ?thesis
    by (auto simp: rne_def Let_def abs_le_iff)
qed

lemma rne_of_int: "rne (of_int n) = n"
  by (simp add: rne_def)

lemma rne_ge: "of_int a \<le> z \<Longrightarrow> a \<le> rne z"
  by (auto simp: rne_def Let_def le_floor_iff) linarith+

lemma rne_le: "z \<le> of_int b \<Longrightarrow> rne z \<le> b"
proof -
  assume zb: "z \<le> of_int b"
  show ?thesis
  proof (cases "z = of_int b")
    case True
    then show ?thesis
      by (simp add: rne_of_int)
  next
    case False
    with zb have "z < of_int b"
      by simp
    then have "\<lfloor>z\<rfloor> < b"
      by (simp add: floor_less_iff)
    then have "\<lfloor>z\<rfloor> + 1 \<le> b"
      by simp
    then show ?thesis
      by (auto simp: rne_def Let_def)
  qed
qed


lemma two_powi_diff: "(2::rat) powi a / 2 powi b = 2 powi (a - b)"
  by (simp add: power_int_diff)

lemma rnd_pos:
  assumes "0 < x"
  shows "rnd p emin x
           = of_int (rne (x / 2 powi (max (ilog2 x) emin - (int p - 1))))
             * 2 powi (max (ilog2 x) emin - (int p - 1))"
  using assms by (simp add: rnd_def Let_def)

lemma rnd_minus: "rnd p emin (- x) = - rnd p emin x"
  by (simp add: rnd_def Let_def sgn_minus)

lemma rnd_zero: "rnd p emin 0 = 0"
  by (simp add: rnd_def)

lemma rnd_normal:
  assumes lo: "2 powi lo \<le> x" and hi: "x \<le> 2 powi hi" and emin: "emin \<le> lo" and p: "0 < p"
  shows "2 powi lo \<le> rnd p emin x \<and> rnd p emin x \<le> 2 powi hi
         \<and> \<bar>rnd p emin x - x\<bar> * 2 ^ p \<le> x"
proof -
  have pos: "0 < x"
    using lo by (rule less_le_trans [rotated]) simp
  let ?e = "ilog2 x"
  let ?qe = "?e - (int p - 1)"
  let ?q = "(2::rat) powi ?qe"
  let ?z = "x / ?q"
  let ?y = "rnd p emin x"
  from ilog2_range [OF lo hi] have er: "lo \<le> ?e" "?e \<le> hi"
    by simp_all
  from ilog2_bounds [OF pos] have eb: "2 powi ?e \<le> x" "x < 2 powi (?e + 1)"
    by simp_all
  have mx: "max ?e emin = ?e"
    using er(1) emin by simp
  have q: "0 < ?q"
    by simp
  have y: "?y = of_int (rne ?z) * ?q"
    using rnd_pos [OF pos, of p emin] by (simp add: mx)
  have pe: "(2::rat) powi ?e / ?q = of_int (2 ^ (p - 1))"
  proof -
    have ip: "int p - 1 = int (p - 1)"
      using p by simp
    have "(2::rat) powi ?e / ?q = 2 powi (int p - 1)"
      by (simp add: two_powi_diff)
    also have "\<dots> = 2 powi int (p - 1)"
      by (simp only: ip)
    also have "\<dots> = 2 ^ (p - 1)"
      by (rule power_int_of_nat)
    finally show ?thesis
      by simp
  qed
  have pe1: "(2::rat) powi (?e + 1) / ?q = of_int (2 ^ p)"
  proof -
    have "(2::rat) powi (?e + 1) / ?q = 2 powi (int p)"
      by (simp add: two_powi_diff)
    then show ?thesis
      by simp
  qed
  have "of_int (2 ^ (p - 1)) \<le> ?z"
    using eb(1) q pe by (metis divide_right_mono less_imp_le)
  then have n_lo: "2 ^ (p - 1) \<le> rne ?z"
    by (rule rne_ge)
  have "?z \<le> of_int (2 ^ p)"
    using eb(2) q pe1 by (metis divide_right_mono less_imp_le)
  then have n_hi: "rne ?z \<le> 2 ^ p"
    by (rule rne_le)
  have qe_lo: "of_int (2 ^ (p - 1)) * ?q = 2 powi ?e"
    using pe q by (simp add: field_simps)
  have qe_hi: "of_int (2 ^ p) * ?q = 2 powi (?e + 1)"
    using pe1 q by (simp add: field_simps)
  have "(of_int (2 ^ (p - 1)) :: rat) \<le> of_int (rne ?z)"
    using n_lo by (simp only: of_int_le_iff)
  then have "of_int (2 ^ (p - 1)) * ?q \<le> of_int (rne ?z) * ?q"
    by (rule mult_right_mono) simp
  then have y_lo: "2 powi ?e \<le> ?y"
    by (simp only: y qe_lo)
  have "(of_int (rne ?z) :: rat) \<le> of_int (2 ^ p)"
    using n_hi by (simp only: of_int_le_iff)
  then have "of_int (rne ?z) * ?q \<le> of_int (2 ^ p) * ?q"
    by (rule mult_right_mono) simp
  then have y_hi: "?y \<le> 2 powi (?e + 1)"
    by (simp only: y qe_hi)
  have 1: "2 powi lo \<le> ?y"
    using y_lo two_powi_mono [OF er(1)] by simp
  have 2: "?y \<le> 2 powi hi"
  proof (cases "?e = hi")
    case False
    with er(2) have "?e + 1 \<le> hi"
      by simp
    from y_hi two_powi_mono [OF this] show ?thesis
      by simp
  next
    case True
    with hi eb(1) have "x = 2 powi ?e"
      by simp
    then have "?z = of_int (2 ^ (p - 1))"
      using pe by simp
    then have "rne ?z = 2 ^ (p - 1)"
      by (simp only: rne_of_int)
    then have "?y = 2 powi ?e"
      by (simp only: y qe_lo)
    with True show ?thesis
      by simp
  qed
  have "?y - x = (of_int (rne ?z) - ?z) * ?q"
    using q by (simp add: y field_simps)
  then have "\<bar>?y - x\<bar> = \<bar>of_int (rne ?z) - ?z\<bar> * ?q"
    using q by (simp add: abs_mult)
  also have "\<dots> \<le> 1 / 2 * ?q"
    using rne_error [of ?z] q by (intro mult_right_mono) simp_all
  finally have "\<bar>?y - x\<bar> * 2 ^ p \<le> 1 / 2 * ?q * 2 ^ p"
    by (intro mult_right_mono) simp_all
  also have "1 / 2 * ?q * 2 ^ p = 2 powi ?e"
    using qe_hi by (simp add: two_powi_Suc mult.commute)
  finally have 3: "\<bar>?y - x\<bar> * 2 ^ p \<le> x"
    using eb(1) by simp
  from 1 2 3 show ?thesis
    by blast
qed


lemma rnd_exact_pos:
  assumes x: "x = of_int n * 2 powi k" and n: "0 < n" "n < 2 ^ p"
    and k: "emin - (int p - 1) \<le> k"
  shows "rnd p emin x = x"
proof -
  have pos: "0 < x"
    using x n(1) by simp
  let ?e = "ilog2 x"
  let ?qe = "max ?e emin - (int p - 1)"
  from ilog2_bounds [OF pos] have eb: "2 powi ?e \<le> x"
    by simp
  have "(of_int n :: rat) < of_int (2 ^ p)"
    using n(2) by (simp only: of_int_less_iff)
  then have "of_int n * (2::rat) powi k < of_int (2 ^ p) * 2 powi k"
    by (rule mult_strict_right_mono) simp
  also have "of_int (2 ^ p) * (2::rat) powi k = 2 powi (int p + k)"
    by (simp add: power_int_add)
  finally have "(2::rat) powi ?e < 2 powi (int p + k)"
    using eb x by simp
  then have "?e < int p + k"
    by (rule two_powi_less_exp)
  with k have qk: "?qe \<le> k"
    by simp
  then have kq: "k - ?qe = int (nat (k - ?qe))"
    by simp
  have "x / 2 powi ?qe = of_int n * 2 powi (k - ?qe)"
    by (simp add: x two_powi_diff [symmetric])
  also have "\<dots> = of_int n * 2 powi int (nat (k - ?qe))"
    using kq by simp
  also have "\<dots> = of_int (n * 2 ^ nat (k - ?qe))"
    by (simp only: power_int_of_nat) simp
  finally have z: "x / 2 powi ?qe = of_int (n * 2 ^ nat (k - ?qe))" .
  have "rnd p emin x = of_int (rne (x / 2 powi ?qe)) * 2 powi ?qe"
    by (rule rnd_pos [OF pos])
  also have "\<dots> = x / 2 powi ?qe * 2 powi ?qe"
    by (simp only: z rne_of_int)
  also have "\<dots> = x"
    by simp
  finally show ?thesis .
qed

lemma rnd_exact:
  assumes x: "x = of_int n * 2 powi k" and n: "\<bar>n\<bar> < 2 ^ p"
    and k: "emin - (int p - 1) \<le> k"
  shows "rnd p emin x = x"
proof -
  consider "n = 0" | "0 < n" | "n < 0"
    by linarith
  then show ?thesis
  proof cases
    case 1
    with x show ?thesis
      by (simp add: rnd_zero)
  next
    case 2
    with n have "n < 2 ^ p"
      by simp
    from rnd_exact_pos [OF x 2 this k] show ?thesis .
  next
    case 3
    with n have "0 < - n" "- n < 2 ^ p"
      by simp_all
    moreover have "- x = of_int (- n) * 2 powi k"
      by (simp add: x)
    ultimately have "rnd p emin (- x) = - x"
      using k by (intro rnd_exact_pos)
    then show ?thesis
      by (simp add: rnd_minus)
  qed
qed

lemma rnd_of_int:
  assumes "\<bar>n\<bar> < 2 ^ p" "emin \<le> int p - 1"
  shows "rnd p emin (of_int n) = of_int n"
  using rnd_exact [of "of_int n" n 0 p emin] assms by simp

lemma fround_normal:
  assumes lo: "2 powi lo \<le> x" and hi: "x \<le> 2 powi hi" and emin: "emin \<le> lo"
    and emax: "hi \<le> emax" and p: "0 < p"
  shows "fround p emin emax x = Fin (rnd p emin x)"
    and "fround p emin emax (- x) = Fin (- rnd p emin x)"
proof -
  from rnd_normal [OF lo hi emin p]
  have r: "2 powi lo \<le> rnd p emin x" "rnd p emin x \<le> 2 powi hi"
    by simp_all
  have "0 < rnd p emin x"
    using r(1) by (rule less_le_trans [rotated]) simp
  moreover have "rnd p emin x < 2 powi (emax + 1)"
  proof -
    have "(2::rat) powi hi < 2 powi (emax + 1)"
      using emax by (intro power_int_strict_increasing) simp_all
    with r(2) show ?thesis
      by simp
  qed
  ultimately show "fround p emin emax x = Fin (rnd p emin x)"
    and "fround p emin emax (- x) = Fin (- rnd p emin x)"
    by (simp_all add: fround_def Let_def rnd_minus)
qed


lemma wrap64_range: "- (2 ^ 63) \<le> wrap64 x \<and> wrap64 x < 2 ^ 63"
proof -
  have "0 \<le> (x + 2 ^ 63) mod 2 ^ 64" "(x + 2 ^ 63) mod 2 ^ 64 < (2 ^ 64 :: int)"
    by simp_all
  then show ?thesis
    by (simp add: wrap64_def)
qed

lemma wrap64_id: "- (2 ^ 63) \<le> x \<Longrightarrow> x < 2 ^ 63 \<Longrightarrow> wrap64 x = x"
  by (simp add: wrap64_def)

lemma elapsed_seconds_zero: "elapsed_seconds 0 = 0"
  by (simp add: elapsed_seconds_def round_double_def round_float_def rnd_zero)

lemma elapsed_seconds_minus: "elapsed_seconds (- d) = - elapsed_seconds d"
  by (simp add: elapsed_seconds_def round_double_def round_float_def rnd_minus)

lemma round_twice_error:
  fixes s y1 y2 :: rat
  assumes "\<bar>y1 - s\<bar> * 2 ^ 53 \<le> s" "\<bar>y2 - y1\<bar> * 2 ^ 24 \<le> y1"
  shows "\<bar>y2 - s\<bar> * 2 ^ 22 \<le> s"
  using assms by (simp add: abs_if split: if_splits)

lemma round_thrice_error:
  fixes x0 r1 r2 r3 :: rat
  assumes "\<bar>r1 - x0\<bar> * 2 ^ 53 \<le> x0"
    "\<bar>r2 - r1 / 1000000\<bar> * 2 ^ 53 \<le> r1 / 1000000"
    "\<bar>r3 - r2\<bar> * 2 ^ 24 \<le> r2"
  shows "\<bar>r3 * 1000000 - x0\<bar> * 2 ^ 21 \<le> x0"
  using assms by (simp add: abs_if split: if_splits)

lemma elapsed_seconds_pos:
  assumes d: "0 < d" "d \<le> 2 ^ 63"
  shows "2 powi (- 20) \<le> elapsed_seconds d \<and> elapsed_seconds d \<le> 2 powi 44
         \<and> \<bar>elapsed_seconds d * 1000000 - of_int d\<bar> * 2 ^ 21 \<le> of_int d"
proof -
  let ?x0 = "of_int d :: rat"
  let ?r1 = "round_double ?x0"
  let ?x1 = "?r1 / 1000000"
  let ?r2 = "round_double ?x1"
  let ?r3 = "round_float ?r2"
  have x0: "2 powi 0 \<le> ?x0" "?x0 \<le> 2 powi 63"
  proof -
    have "(of_int 1 :: rat) \<le> of_int d"
      using d(1) by simp
    then show "2 powi 0 \<le> ?x0"
      by simp
    have "(of_int d :: rat) \<le> of_int (2 ^ 63)"
      using d(2) by (simp only: of_int_le_iff)
    then show "?x0 \<le> 2 powi 63"
      by simp
  qed
  from rnd_normal [OF x0, of "- 1022" 53]
  have r1: "1 \<le> ?r1" "?r1 \<le> 2 ^ 63" "\<bar>?r1 - ?x0\<bar> * 2 ^ 53 \<le> ?x0"
    by (simp_all add: round_double_def)
  have x1: "2 powi (- 20) \<le> ?x1" "?x1 \<le> 2 powi 44"
    using r1(1,2) by simp_all
  from rnd_normal [OF x1, of "- 1022" 53]
  have r2: "2 powi (- 20) \<le> ?r2" "?r2 \<le> 2 powi 44" "\<bar>?r2 - ?x1\<bar> * 2 ^ 53 \<le> ?x1"
    by (simp_all add: round_double_def)
  from rnd_normal [OF r2(1,2), of "- 126" 24]
  have r3: "2 powi (- 20) \<le> ?r3" "?r3 \<le> 2 powi 44" "\<bar>?r3 - ?r2\<bar> * 2 ^ 24 \<le> ?r2"
    by (simp_all add: round_float_def)
  have e: "elapsed_seconds d = ?r3"
    by (simp add: elapsed_seconds_def)
  have "\<bar>?r3 * 1000000 - ?x0\<bar> * 2 ^ 21 \<le> ?x0"
    using r1(3) r2(3) r3(3) by (rule round_thrice_error)
  with r3(1,2) e show ?thesis
    by simp
qed


lemma macro_mib: "round_double (round_double (of_nat 4194304) / (1024 * 1024)) = 4"
proof -
  have "round_double (of_nat 4194304) = 4194304"
    using rnd_of_int [of 4194304 53 "- 1022"] by (simp add: round_double_def)
  moreover have "round_double 4 = 4"
    using rnd_of_int [of 4 53 "- 1022"] by (simp add: round_double_def)
  ultimately show ?thesis
    by simp
qed

lemma speed_normal:
  assumes t: "2 powi (- 20) \<le> t" "t \<le> 2 powi 44"
  shows "\<exists>q. narrow (fdiv 4 t) = Fin q \<and> narrow (fdiv 4 (- t)) = Fin (- q)
           \<and> 0 < q \<and> \<bar>q * t - 4\<bar> * 2 ^ 22 \<le> 4"
proof -
  have tpos: "0 < t"
    using t(1) by (rule less_le_trans [rotated]) simp
  let ?s = "4 / t"
  have s: "2 powi (- 42) \<le> ?s" "?s \<le> 2 powi 22"
    using t tpos by (simp_all add: field_simps)
  let ?y1 = "rnd 53 (- 1022) ?s"
  let ?y2 = "rnd 24 (- 126) ?y1"
  from rnd_normal [OF s, of "- 1022" 53]
  have y1: "2 powi (- 42) \<le> ?y1" "?y1 \<le> 2 powi 22" "\<bar>?y1 - ?s\<bar> * 2 ^ 53 \<le> ?s"
    by simp_all
  from rnd_normal [OF y1(1,2), of "- 126" 24]
  have y2: "2 powi (- 42) \<le> ?y2" "?y2 \<le> 2 powi 22" "\<bar>?y2 - ?y1\<bar> * 2 ^ 24 \<le> ?y1"
    by simp_all
  from fround_normal [OF s, of "- 1022" 1023 53]
  have d: "to_double ?s = Fin ?y1" "to_double (- ?s) = Fin (- ?y1)"
    by (simp_all add: to_double_def)
  from fround_normal [OF y1(1,2), of "- 126" 127 24]
  have f: "to_float ?y1 = Fin ?y2" "to_float (- ?y1) = Fin (- ?y2)"
    by (simp_all add: to_float_def)
  have 1: "narrow (fdiv 4 t) = Fin ?y2"
    using tpos d(1) f(1) by (simp add: fdiv_def narrow_def)
  have 2: "narrow (fdiv 4 (- t)) = Fin (- ?y2)"
    using tpos d(2) f(2) by (simp add: fdiv_def narrow_def)
  have 3: "0 < ?y2"
    using y2(1) by (rule less_le_trans [rotated]) simp
  have spos: "0 < ?s"
    using tpos by simp
  have "\<bar>?y2 - ?s\<bar> * 2 ^ 22 \<le> ?s"
    using y1(3) y2(3) by (rule round_twice_error)
  then have "\<bar>?y2 - ?s\<bar> * 2 ^ 22 * t \<le> ?s * t"
    using tpos by (intro mult_right_mono) simp_all
  moreover have "\<bar>?y2 - ?s\<bar> * t = \<bar>?y2 * t - 4\<bar>"
  proof -
    have "\<bar>?y2 - ?s\<bar> * t = \<bar>(?y2 - ?s) * t\<bar>"
      using tpos by (simp add: abs_mult)
    also have "(?y2 - ?s) * t = ?y2 * t - 4"
      using tpos by (simp add: field_simps)
    finally show ?thesis .
  qed
  ultimately have 4: "\<bar>?y2 * t - 4\<bar> * 2 ^ 22 \<le> 4"
    using tpos by (simp add: mult.assoc mult.commute mult.left_commute)
  from 1 2 3 4 show ?thesis
    by blast
qed


lemma fround_exact:
  assumes "x = of_int n * 2 powi k" "\<bar>n\<bar> < 2 ^ p" "emin - (int p - 1) \<le> k"
    and "\<bar>x\<bar> < 2 powi (emax + 1)"
  shows "fround p emin emax x = Fin x"
  using rnd_exact [OF assms(1-3)] assms(4) by (simp add: fround_def Let_def)

lemma round_double_int: "\<bar>n\<bar> < 2 ^ 53 \<Longrightarrow> round_double (of_int n) = of_int n"
  using rnd_of_int [of n 53 "- 1022"] by (simp add: round_double_def)

lemma round_float_int: "\<bar>n\<bar> < 2 ^ 24 \<Longrightarrow> round_float (of_int n) = of_int n"
  using rnd_of_int [of n 24 "- 126"] by (simp add: round_float_def)

lemma to_double_int: "\<bar>n\<bar> < 2 ^ 53 \<Longrightarrow> to_double (of_int n) = Fin (of_int n)"
proof -
  assume n: "\<bar>n\<bar> < 2 ^ 53"
  then have "\<bar>n\<bar> < 2 ^ 1024"
    by simp
  then have "(of_int \<bar>n\<bar> :: rat) < of_int (2 ^ 1024)"
    by (simp only: of_int_less_iff)
  then have "\<bar>of_int n :: rat\<bar> < 2 powi (1023 + 1)"
    by simp
  with n show ?thesis
    using fround_exact [of "of_int n" n 0 53 "- 1022" 1023] by (simp add: to_double_def)
qed

lemma to_float_int: "\<bar>n\<bar> < 2 ^ 24 \<Longrightarrow> to_float (of_int n) = Fin (of_int n)"
proof -
  assume n: "\<bar>n\<bar> < 2 ^ 24"
  then have "\<bar>n\<bar> < 2 ^ 128"
    by simp
  then have "(of_int \<bar>n\<bar> :: rat) < of_int (2 ^ 128)"
    by (simp only: of_int_less_iff)
  then have "\<bar>of_int n :: rat\<bar> < 2 powi (127 + 1)"
    by simp
  with n show ?thesis
    using fround_exact [of "of_int n" n 0 24 "- 126" 127] by (simp add: to_float_def)
qed

lemma elapsed_seconds_whole:
  assumes "\<bar>n\<bar> < 2 ^ 24"
  shows "elapsed_seconds (n * 1000000) = of_int n"
proof -
  have "\<bar>n * 1000000\<bar> < 2 ^ 53"
    using assms by (simp add: abs_mult)
  from round_double_int [OF this]
  have "round_double (of_int (n * 1000000)) / 1000000 = of_int n"
    by simp
  moreover have "\<bar>n\<bar> < 2 ^ 53"
    using assms by simp
  ultimately show ?thesis
    using round_double_int [of n] round_float_int [OF assms]
    by (simp add: elapsed_seconds_def)
qed

lemma time_seconds_same: "time_seconds s s = 0"
  by (simp add: time_seconds_def wrap64_def elapsed_seconds_zero)

lemma time_seconds_1s: "time_seconds 0 1000000 = 1"
  using elapsed_seconds_whole [of 1] by (simp add: time_seconds_def wrap64_def)

lemma time_seconds_2s: "time_seconds 5000 2005000 = 2"
  using elapsed_seconds_whole [of 2] by (simp add: time_seconds_def wrap64_def)

lemma speed_mb_macro: "speed_mb TEST_FILE_SIZE t = narrow (fdiv 4 t)"
  using macro_mib by (simp add: speed_mb_def TEST_FILE_SIZE_def)

lemma speed_macro_0: "speed_mb TEST_FILE_SIZE 0 = PInf"
  by (simp add: speed_mb_macro fdiv_def narrow_def)

lemma speed_macro_1: "speed_mb TEST_FILE_SIZE 1 = Fin 4"
  using to_double_int [of 4] to_float_int [of 4]
  by (simp add: speed_mb_macro fdiv_def narrow_def)

lemma speed_macro_2: "speed_mb TEST_FILE_SIZE 2 = Fin 2"
  using to_double_int [of 2] to_float_int [of 2]
  by (simp add: speed_mb_macro fdiv_def narrow_def)

lemma narrow_Fin: "narrow (Fin y) = to_float y"
  by (simp add: narrow_def)

lemma fdiv_one: "fdiv a 1 = to_double a"
  by (simp add: fdiv_def)

lemma speed_mb_10: "speed_mb 10 1 = Fin (10 / 1048576)"
proof -
  have x: "(10 / 1048576 :: rat) = of_int 10 * 2 powi (- 20)"
    by simp
  have r10: "round_double (of_nat 10) = 10"
    using round_double_int [of 10] by simp
  have rd: "round_double (10 / 1048576) = 10 / 1048576"
    unfolding round_double_def by (rule rnd_exact [OF x]) simp_all
  have td: "to_double (10 / 1048576) = Fin (10 / 1048576)"
    unfolding to_double_def by (rule fround_exact [OF x]) simp_all
  have tf: "to_float (10 / 1048576) = Fin (10 / 1048576)"
    unfolding to_float_def by (rule fround_exact [OF x]) simp_all
  have m: "(1024 * 1024 :: rat) = 1048576"
    by simp
  show ?thesis
    by (simp only: speed_mb_def r10 m rd fdiv_one td narrow_Fin tf)
qed

lemma throughput_facts:
  assumes d: "d = wrap64 (e - s)" and t: "t = time_seconds s e"
  shows "\<bar>t * 1000000 - of_int d\<bar> * 2 ^ 21 \<le> \<bar>of_int d\<bar>"
    and "d = 0 \<longrightarrow> speed_mb TEST_FILE_SIZE t = PInf"
    and "d \<noteq> 0 \<longrightarrow> (\<exists>q. speed_mb TEST_FILE_SIZE t = Fin q
                       \<and> \<bar>q * t - 4\<bar> * 2 ^ 22 \<le> 4 \<and> (0 < q \<longleftrightarrow> 0 < d))"
proof -
  have te: "t = elapsed_seconds d"
    by (simp add: t d time_seconds_def)
  from wrap64_range [of "e - s"] have dr: "- (2 ^ 63) \<le> d" "d < 2 ^ 63"
    by (simp_all add: d)
  consider "d = 0" | "0 < d" | "d < 0"
    by linarith
  then have "\<bar>t * 1000000 - of_int d\<bar> * 2 ^ 21 \<le> \<bar>of_int d\<bar>
    \<and> (d = 0 \<longrightarrow> speed_mb TEST_FILE_SIZE t = PInf)
    \<and> (d \<noteq> 0 \<longrightarrow> (\<exists>q. speed_mb TEST_FILE_SIZE t = Fin q
                       \<and> \<bar>q * t - 4\<bar> * 2 ^ 22 \<le> 4 \<and> (0 < q \<longleftrightarrow> 0 < d)))"
  proof cases
    case 1
    then show ?thesis
      by (simp add: te elapsed_seconds_zero speed_macro_0)
  next
    case 2
    with dr have "d \<le> 2 ^ 63"
      by simp
    from elapsed_seconds_pos [OF 2 this]
    have tb: "2 powi (- 20) \<le> t" "t \<le> 2 powi 44"
      and err: "\<bar>t * 1000000 - of_int d\<bar> * 2 ^ 21 \<le> of_int d"
      by (simp_all add: te)
    from speed_normal [OF tb] obtain q where
      "narrow (fdiv 4 t) = Fin q" "0 < q" "\<bar>q * t - 4\<bar> * 2 ^ 22 \<le> 4"
      by blast
    with 2 err show ?thesis
      by (auto simp: speed_mb_macro)
  next
    case 3
    then have pos: "0 < - d"
      by simp
    from dr have "- d \<le> 2 ^ 63"
      by simp
    from elapsed_seconds_pos [OF pos this]
    have tb: "2 powi (- 20) \<le> - t" "- t \<le> 2 powi 44"
      and err: "\<bar>- t * 1000000 - of_int (- d)\<bar> * 2 ^ 21 \<le> of_int (- d)"
      by (simp_all add: te elapsed_seconds_minus)
    from speed_normal [OF tb] obtain q where
      q: "narrow (fdiv 4 (- (- t))) = Fin (- q)" "0 < q" "\<bar>q * (- t) - 4\<bar> * 2 ^ 22 \<le> 4"
      by blast
    have "\<bar>- t * 1000000 - of_int (- d)\<bar> = \<bar>t * 1000000 - of_int d\<bar>"
      by (simp add: abs_minus_commute)
    with err 3 have 1: "\<bar>t * 1000000 - of_int d\<bar> * 2 ^ 21 \<le> \<bar>of_int d\<bar>"
      by simp
    from q have "speed_mb TEST_FILE_SIZE t = Fin (- q)" "\<bar>(- q) * t - 4\<bar> * 2 ^ 22 \<le> 4"
      "\<not> 0 < - q"
      by (simp_all add: speed_mb_macro)
    with 1 3 show ?thesis
      by auto
  qed
  then show "\<bar>t * 1000000 - of_int d\<bar> * 2 ^ 21 \<le> \<bar>of_int d\<bar>"
    and "d = 0 \<longrightarrow> speed_mb TEST_FILE_SIZE t = PInf"
    and "d \<noteq> 0 \<longrightarrow> (\<exists>q. speed_mb TEST_FILE_SIZE t = Fin q
                       \<and> \<bar>q * t - 4\<bar> * 2 ^ 22 \<le> 4 \<and> (0 < q \<longleftrightarrow> 0 < d))"
    by blast+
qed

section \<open>Properties of the speed tests\<close>

lemma plain_xfer_event: "plain_event (xfer_event m t r)"
  by (cases m) (simp_all add: xfer_event_def plain_event_def)

lemma plain_failure_logs: "list_all plain_event (failure_logs m b t r)"
  by (cases m) (simp_all add: failure_logs_def plain_event_def speed_report_def)

lemma plain_progress_logs: "list_all plain_event (progress_logs m b n t)"
  by (cases m) (simp_all add: progress_logs_def plain_event_def speed_report_def)

lemma plain_inv_step: "plain_inv s \<Longrightarrow> plain_inv (transfer_step m dev target buf s)"
  by (simp add: plain_inv_def transfer_step_def Let_def plain_xfer_event plain_failure_logs
      plain_progress_logs)

lemma plain_inv_init: "plain_inv session_init"
  by (simp add: plain_inv_def session_init_def)

lemma not_plain_event:
  "\<not> plain_event Fflush" "\<not> plain_event Fsync" "\<not> plain_event Fclose"
  "\<not> plain_event (Timer t)"
  by (simp_all add: plain_event_def)

lemma plain_event_report: "plain_event e \<Longrightarrow> speed_report e = None"
  by (auto simp: plain_event_def speed_report_def split: event.splits)

lemma speed_reports_append: "speed_reports (xs @ ys) = speed_reports xs @ speed_reports ys"
  by (simp add: speed_reports_def map_filter_def)

lemma speed_reports_Cons:
  "speed_reports (e # es)
     = (case speed_report e of None \<Rightarrow> [] | Some x \<Rightarrow> [x]) @ speed_reports es"
  by (simp add: speed_reports_def split: option.splits)

lemma speed_reports_plain: "list_all plain_event tr \<Longrightarrow> speed_reports tr = []"
  by (induction tr) (simp_all add: speed_reports_Cons plain_event_report speed_reports_def)

lemma transfer_loop_plain:
  assumes "0 < buf"
  shows "\<exists>r. transfer_loop m dev target buf session_init = Some r
           \<and> list_all plain_event (trace r)
           \<and> (broke r \<longrightarrow> bytes_transferred r < target)"
proof -
  let ?P = "\<lambda>s. plain_inv s \<and> (broke s \<longrightarrow> bytes_transferred s < target)"
  have "?P (transfer_step m dev target buf s)"
    if "?P s" "\<not> broke s" "bytes_transferred s < target" for s
    using that plain_inv_step [of s m dev target buf]
    by (auto simp: step_broke step_fail_bytes)
  from transfer_loop_rule [where P = ?P, OF assms _ not_broke_init this]
  show ?thesis
    using plain_inv_init not_broke_init by (auto simp: plain_inv_def)
qed

text \<open>The shape of a write test that got its buffer and its file.\<close>

lemma test_write_speed_at_shape:
  assumes "0 < buf" "malloc_ok env" "fopen_ok env"
  shows "\<exists>pre r. transfer_loop WriteMode (stream env) target buf session_init = Some r
     \<and> test_write_speed_at buf target env
         = Some (pre @ [Timer (start_time env)] @ trace r
                 @ [Fflush, Fsync, Fclose, Timer (end_time env),
                    Log LOGI (Write_speed
                      (speed_mb target (time_seconds (start_time env) (end_time env)))
                      (time_seconds (start_time env) (end_time env)) target),
                    Free])
     \<and> list_all plain_event pre \<and> list_all plain_event (trace r)
     \<and> (broke r \<longrightarrow> bytes_transferred r < target)"
proof -
  from transfer_loop_plain [OF assms(1), of WriteMode "stream env" target]
  obtain r where r: "transfer_loop WriteMode (stream env) target buf session_init = Some r"
    "list_all plain_event (trace r)" "broke r \<longrightarrow> bytes_transferred r < target"
    by blast
  let ?pre = "[Log LOGI Testing_write_speed, Stat TEST_FILE_PATH (file_exists env)]
               @ (if file_exists env then [Unlink TEST_FILE_PATH] else [])
               @ [Malloc buf (malloc_ok env), Log LOGI Opening_file_for_writing,
                  Fopen TEST_FILE_PATH ''w'' (fopen_ok env)]"
  have "list_all plain_event ?pre"
    by (simp add: plain_event_def speed_report_def)
  moreover have "test_write_speed_at buf target env
         = Some (?pre @ [Timer (start_time env)] @ trace r
                 @ [Fflush, Fsync, Fclose, Timer (end_time env),
                    Log LOGI (Write_speed
                      (speed_mb target (time_seconds (start_time env) (end_time env)))
                      (time_seconds (start_time env) (end_time env)) target),
                    Free])"
    using assms(2,3) r(1) by (simp add: test_write_speed_at_def Let_def)
  ultimately show ?thesis
    using r by blast
qed

lemma test_read_speed_at_shape:
  assumes "0 < buf" "malloc_ok env" "fopen_ok env"
  shows "\<exists>pre r. transfer_loop ReadMode (stream env) target buf session_init = Some r
     \<and> test_read_speed_at buf target env
         = Some (pre @ [Timer (start_time env)] @ trace r
                 @ [Fclose, Timer (end_time env),
                    Log LOGI (Read_speed
                      (speed_mb target (time_seconds (start_time env) (end_time env)))
                      (time_seconds (start_time env) (end_time env)) target),
                    Free, Unlink TEST_FILE_PATH])
     \<and> list_all plain_event pre \<and> list_all plain_event (trace r)
     \<and> (broke r \<longrightarrow> bytes_transferred r < target)"
proof -
  from transfer_loop_plain [OF assms(1), of ReadMode "stream env" target]
  obtain r where r: "transfer_loop ReadMode (stream env) target buf session_init = Some r"
    "list_all plain_event (trace r)" "broke r \<longrightarrow> bytes_transferred r < target"
    by blast
  let ?pre = "[Log LOGI Testing_read_speed, Heap_caps_malloc buf (malloc_ok env),
               Log LOGI Opening_file_for_reading, Fopen TEST_FILE_PATH ''r'' (fopen_ok env)]"
  have "list_all plain_event ?pre"
    by (simp add: plain_event_def speed_report_def)
  moreover have "test_read_speed_at buf target env
         = Some (?pre @ [Timer (start_time env)] @ trace r
                 @ [Fclose, Timer (end_time env),
                    Log LOGI (Read_speed
                      (speed_mb target (time_seconds (start_time env) (end_time env)))
                      (time_seconds (start_time env) (end_time env)) target),
                    Free, Unlink TEST_FILE_PATH])"
    using assms(2,3) r(1) by (simp add: test_read_speed_at_def Let_def)
  ultimately show ?thesis
    using r by blast
qed

lemma buffer_size_pos: "0 < TEST_BUFFER_SIZE"
  by (simp add: TEST_BUFFER_SIZE_def)

text \<open>
  Claim C6. In every write test that got its buffer and its file, with a positive buffer
  size, the events are: a prefix without timer reading, flush, sync or close; the starting
  timestamp; the events of the session, again without any of these; then
  \<^verbatim>\<open>fflush\<close>, \<^verbatim>\<open>fsync\<close>, \<^verbatim>\<open>fclose\<close> and the ending timestamp, in this
  order; then the report, whose seconds are computed from the two timestamps. So the flush
  and the sync precede the close and the ending timestamp, and the measured time includes
  them. \<^verbatim>\<open>test_write_speed\<close> is the instance at the two macros.
\<close>

theorem C6_flush_sync_before_close_and_stop:
  assumes "0 < buf" "malloc_ok env" "fopen_ok env"
  shows "\<exists>pre r. transfer_loop WriteMode (stream env) target buf session_init = Some r
     \<and> test_write_speed_at buf target env
         = Some (pre @ [Timer (start_time env)] @ trace r
                 @ [Fflush, Fsync, Fclose, Timer (end_time env),
                    Log LOGI (Write_speed
                      (speed_mb target (time_seconds (start_time env) (end_time env)))
                      (time_seconds (start_time env) (end_time env)) target),
                    Free])
     \<and> (\<forall>e \<in> set (pre @ trace r).
           e \<noteq> Fflush \<and> e \<noteq> Fsync \<and> e \<noteq> Fclose \<and> (\<forall>t. e \<noteq> Timer t))
     \<and> test_write_speed = test_write_speed_at TEST_BUFFER_SIZE TEST_FILE_SIZE
     \<and> 0 < TEST_BUFFER_SIZE"
proof -
  from test_write_speed_at_shape [OF assms, of target]
  obtain pre r where r: "transfer_loop WriteMode (stream env) target buf session_init = Some r"
    "test_write_speed_at buf target env
         = Some (pre @ [Timer (start_time env)] @ trace r
                 @ [Fflush, Fsync, Fclose, Timer (end_time env),
                    Log LOGI (Write_speed
                      (speed_mb target (time_seconds (start_time env) (end_time env)))
                      (time_seconds (start_time env) (end_time env)) target),
                    Free])"
    "list_all plain_event pre" "list_all plain_event (trace r)"
    by blast
  have "\<forall>e \<in> set (pre @ trace r).
           e \<noteq> Fflush \<and> e \<noteq> Fsync \<and> e \<noteq> Fclose \<and> (\<forall>t. e \<noteq> Timer t)"
    using r(3,4) not_plain_event by (auto simp: list_all_iff)
  with r(1,2) buffer_size_pos show ?thesis
    unfolding test_write_speed_def by blast
qed

theorem C6_flush_sync_before_close_and_stop_witness:
  "0 < (4::nat) \<and> malloc_ok quiet_test_env \<and> fopen_ok quiet_test_env
   \<and> test_write_speed_at 4 10 quiet_test_env
       = Some [Log LOGI Testing_write_speed, Stat ''/sdcard/test.txt'' False, Malloc 4 True,
               Log LOGI Opening_file_for_writing, Fopen ''/sdcard/test.txt'' ''w'' True,
               Timer 0,
               Fwrite 4 \<lparr>count = 4, ferror = False, feof = False, errno = 0\<rparr>,
               Fwrite 4 \<lparr>count = 4, ferror = False, feof = False, errno = 0\<rparr>,
               Fwrite 2 \<lparr>count = 2, ferror = False, feof = False, errno = 0\<rparr>,
               Fflush, Fsync, Fclose, Timer 1000000,
               Log LOGI (Write_speed (Fin (10 / 1048576)) 1 10), Free]
   \<and> (\<exists>pre (r :: session). test_write_speed_at 4 10 quiet_test_env
          = Some (pre @ [Timer 0] @ trace r
                  @ [Fflush, Fsync, Fclose, Timer 1000000,
                     Log LOGI (Write_speed (Fin (10 / 1048576)) 1 10), Free])
        \<and> (\<forall>e \<in> set (pre @ trace r).
              e \<noteq> Fflush \<and> e \<noteq> Fsync \<and> e \<noteq> Fclose \<and> (\<forall>t. e \<noteq> Timer t)))"
proof -
  have h: "0 < (4::nat)" "malloc_ok quiet_test_env" "fopen_ok quiet_test_env"
    by (simp_all add: quiet_test_env_def)
  have ev: "transfer_loop WriteMode ideal_device 10 4 session_init
     = Some \<lparr>bytes_transferred = 10, broke = False, ncalls = 3,
             trace = [Fwrite 4 \<lparr>count = 4, ferror = False, feof = False, errno = 0\<rparr>,
                      Fwrite 4 \<lparr>count = 4, ferror = False, feof = False, errno = 0\<rparr>,
                      Fwrite 2 \<lparr>count = 2, ferror = False, feof = False, errno = 0\<rparr>]\<rparr>"
    by (simp add: transfer_loop.simps eval_defs)
  have vals: "start_time quiet_test_env = 0" "end_time quiet_test_env = 1000000"
    "time_seconds 0 1000000 = 1" "speed_mb 10 1 = Fin (10 / 1048576)"
    by (simp_all add: quiet_test_env_def time_seconds_1s speed_mb_10)
  have conc: "test_write_speed_at 4 10 quiet_test_env
       = Some [Log LOGI Testing_write_speed, Stat ''/sdcard/test.txt'' False, Malloc 4 True,
               Log LOGI Opening_file_for_writing, Fopen ''/sdcard/test.txt'' ''w'' True,
               Timer 0,
               Fwrite 4 \<lparr>count = 4, ferror = False, feof = False, errno = 0\<rparr>,
               Fwrite 4 \<lparr>count = 4, ferror = False, feof = False, errno = 0\<rparr>,
               Fwrite 2 \<lparr>count = 2, ferror = False, feof = False, errno = 0\<rparr>,
               Fflush, Fsync, Fclose, Timer 1000000,
               Log LOGI (Write_speed (Fin (10 / 1048576)) 1 10), Free]"
    by (simp add: test_write_speed_at_def ev Let_def quiet_test_env_def TEST_FILE_PATH_def
        time_seconds_1s speed_mb_10)
  from C6_flush_sync_before_close_and_stop [OF h, of 10]
  obtain pre and r :: session where a: "test_write_speed_at 4 10 quiet_test_env
         = Some (pre @ [Timer (start_time quiet_test_env)] @ trace r
                 @ [Fflush, Fsync, Fclose, Timer (end_time quiet_test_env),
                    Log LOGI (Write_speed
                      (speed_mb 10 (time_seconds (start_time quiet_test_env)
                                                 (end_time quiet_test_env)))
                      (time_seconds (start_time quiet_test_env) (end_time quiet_test_env)) 10),
                    Free])"
    and b: "\<forall>e \<in> set (pre @ trace r).
              e \<noteq> Fflush \<and> e \<noteq> Fsync \<and> e \<noteq> Fclose \<and> (\<forall>t. e \<noteq> Timer t)"
    by blast
  from a have "test_write_speed_at 4 10 quiet_test_env
          = Some (pre @ [Timer 0] @ trace r
                  @ [Fflush, Fsync, Fclose, Timer 1000000,
                     Log LOGI (Write_speed (Fin (10 / 1048576)) 1 10), Free])"
    by (simp only: vals)
  with b have "\<exists>pre (r :: session). test_write_speed_at 4 10 quiet_test_env
          = Some (pre @ [Timer 0] @ trace r
                  @ [Fflush, Fsync, Fclose, Timer 1000000,
                     Log LOGI (Write_speed (Fin (10 / 1048576)) 1 10), Free])
        \<and> (\<forall>e \<in> set (pre @ trace r).
              e \<noteq> Fflush \<and> e \<noteq> Fsync \<and> e \<noteq> Fclose \<and> (\<forall>t. e \<noteq> Timer t))"
    by blast
  with h conc show ?thesis
    by blast
qed

subsection \<open>The speed report\<close>

lemma speed_reports_write_line:
  "speed_reports [Fflush, Fsync, Fclose, Timer t1, Log LOGI (Write_speed sp t n), Free]
     = [(sp, t, n)]"
  by (simp add: speed_reports_def speed_report_def)

lemma speed_reports_read_line:
  "speed_reports [Fclose, Timer t1, Log LOGI (Read_speed sp t n), Free, Unlink p]
     = [(sp, t, n)]"
  by (simp add: speed_reports_def speed_report_def)

lemma speed_reports_timer: "speed_reports [Timer t] = []"
  by (simp add: speed_reports_def speed_report_def)

lemma test_write_speed_at_reports:
  assumes "0 < buf" "malloc_ok env" "fopen_ok env"
  shows "\<exists>r tw. transfer_loop WriteMode (stream env) target buf session_init = Some r
     \<and> test_write_speed_at buf target env = Some tw
     \<and> (broke r \<longrightarrow> bytes_transferred r < target)
     \<and> speed_reports tw
         = [(speed_mb target (time_seconds (start_time env) (end_time env)),
             time_seconds (start_time env) (end_time env), target)]"
proof -
  from test_write_speed_at_shape [OF assms, of target]
  obtain pre r where r: "transfer_loop WriteMode (stream env) target buf session_init = Some r"
    and tw: "test_write_speed_at buf target env
         = Some (pre @ [Timer (start_time env)] @ trace r
                 @ [Fflush, Fsync, Fclose, Timer (end_time env),
                    Log LOGI (Write_speed
                      (speed_mb target (time_seconds (start_time env) (end_time env)))
                      (time_seconds (start_time env) (end_time env)) target),
                    Free])"
    and pl: "list_all plain_event pre" "list_all plain_event (trace r)"
    and lt: "broke r \<longrightarrow> bytes_transferred r < target"
    by blast
  have "speed_reports (pre @ [Timer (start_time env)] @ trace r
                 @ [Fflush, Fsync, Fclose, Timer (end_time env),
                    Log LOGI (Write_speed
                      (speed_mb target (time_seconds (start_time env) (end_time env)))
                      (time_seconds (start_time env) (end_time env)) target),
                    Free])
         = [(speed_mb target (time_seconds (start_time env) (end_time env)),
             time_seconds (start_time env) (end_time env), target)]"
    by (simp only: speed_reports_append speed_reports_plain [OF pl(1)]
        speed_reports_plain [OF pl(2)] speed_reports_timer speed_reports_write_line append_Nil)
  with r tw lt show ?thesis
    by simp
qed

lemma test_read_speed_at_reports:
  assumes "0 < buf" "malloc_ok env" "fopen_ok env"
  shows "\<exists>r tr. transfer_loop ReadMode (stream env) target buf session_init = Some r
     \<and> test_read_speed_at buf target env = Some tr
     \<and> (broke r \<longrightarrow> bytes_transferred r < target)
     \<and> speed_reports tr
         = [(speed_mb target (time_seconds (start_time env) (end_time env)),
             time_seconds (start_time env) (end_time env), target)]"
proof -
  from test_read_speed_at_shape [OF assms, of target]
  obtain pre r where r: "transfer_loop ReadMode (stream env) target buf session_init = Some r"
    and tr: "test_read_speed_at buf target env
         = Some (pre @ [Timer (start_time env)] @ trace r
                 @ [Fclose, Timer (end_time env),
                    Log LOGI (Read_speed
                      (speed_mb target (time_seconds (start_time env) (end_time env)))
                      (time_seconds (start_time env) (end_time env)) target),
                    Free, Unlink TEST_FILE_PATH])"
    and pl: "list_all plain_event pre" "list_all plain_event (trace r)"
    and lt: "broke r \<longrightarrow> bytes_transferred r < target"
    by blast
  have "speed_reports (pre @ [Timer (start_time env)] @ trace r
                 @ [Fclose, Timer (end_time env),
                    Log LOGI (Read_speed
                      (speed_mb target (time_seconds (start_time env) (end_time env)))
                      (time_seconds (start_time env) (end_time env)) target),
                    Free, Unlink TEST_FILE_PATH])
         = [(speed_mb target (time_seconds (start_time env) (end_time env)),
             time_seconds (start_time env) (end_time env), target)]"
    by (simp only: speed_reports_append speed_reports_plain [OF pl(1)]
        speed_reports_plain [OF pl(2)] speed_reports_timer speed_reports_read_line append_Nil)
  with r tr lt show ?thesis
    by simp
qed

text \<open>
  Claim C10. When a speed test at the configured sizes got its buffer and its file, the
  test returns and its trace holds exactly one speed report, computed from
  \<^verbatim>\<open>TEST_FILE_SIZE\<close>: the throughput is \<open>TEST_FILE_SIZE / 2\<^sup>2\<^sup>0\<close> over the seconds and
  the byte count is \<^verbatim>\<open>TEST_FILE_SIZE\<close>. This holds in particular when the session
  failed partway, where \<open>bytes_transferred\<close> is less than \<^verbatim>\<open>TEST_FILE_SIZE\<close>.
\<close>

theorem C10_report_from_target_after_failure:
  assumes "malloc_ok env" "fopen_ok env"
  shows "\<exists>rw rr tw tr.
       transfer_loop WriteMode (stream env) TEST_FILE_SIZE TEST_BUFFER_SIZE session_init = Some rw
     \<and> transfer_loop ReadMode (stream env) TEST_FILE_SIZE TEST_BUFFER_SIZE session_init = Some rr
     \<and> test_write_speed env = Some tw \<and> test_read_speed env = Some tr
     \<and> (broke rw \<longrightarrow> bytes_transferred rw < TEST_FILE_SIZE
           \<and> speed_reports tw
               = [(speed_mb TEST_FILE_SIZE (time_seconds (start_time env) (end_time env)),
                   time_seconds (start_time env) (end_time env), TEST_FILE_SIZE)])
     \<and> (broke rr \<longrightarrow> bytes_transferred rr < TEST_FILE_SIZE
           \<and> speed_reports tr
               = [(speed_mb TEST_FILE_SIZE (time_seconds (start_time env) (end_time env)),
                   time_seconds (start_time env) (end_time env), TEST_FILE_SIZE)])"
  using test_write_speed_at_reports [OF buffer_size_pos assms, of TEST_FILE_SIZE]
    test_read_speed_at_reports [OF buffer_size_pos assms, of TEST_FILE_SIZE]
  unfolding test_write_speed_def test_read_speed_def by blast

lemma quiet_time: "time_seconds (start_time quiet_test_env) (end_time quiet_test_env) = 1"
  by (simp add: quiet_test_env_def time_seconds_1s)

lemma short_at_0_macros:
  "transfer_loop m (short_at 0) TEST_FILE_SIZE TEST_BUFFER_SIZE session_init
     = Some \<lparr>bytes_transferred = 0, broke = True, ncalls = 1,
             trace = xfer_event m 131072
                       \<lparr>count = 131071, ferror = False, feof = True, errno = 0\<rparr>
                     # failure_logs m 0 131072
                         \<lparr>count = 131071, ferror = False, feof = True, errno = 0\<rparr>\<rparr>"
  by (subst transfer_loop.simps)
     (simp add: transfer_step_def Let_def session_init_def chunk_size_def short_at_def
        TEST_FILE_SIZE_def TEST_BUFFER_SIZE_def)

theorem C10_report_from_target_after_failure_witness:
  "malloc_ok (quiet_test_env\<lparr>stream := short_at 0\<rparr>)
   \<and> fopen_ok (quiet_test_env\<lparr>stream := short_at 0\<rparr>)
   \<and> (\<exists>rw tw. transfer_loop WriteMode (short_at 0) TEST_FILE_SIZE TEST_BUFFER_SIZE session_init
                  = Some rw
          \<and> test_write_speed (quiet_test_env\<lparr>stream := short_at 0\<rparr>) = Some tw
          \<and> broke rw \<and> bytes_transferred rw = 0
          \<and> speed_reports tw = [(Fin 4, 1, 4194304)])"
proof -
  let ?env = "quiet_test_env\<lparr>stream := short_at 0\<rparr>"
  have h: "malloc_ok ?env" "fopen_ok ?env"
    by (simp_all add: quiet_test_env_def)
  have vals: "stream ?env = short_at 0"
    "time_seconds (start_time ?env) (end_time ?env) = 1"
    "speed_mb TEST_FILE_SIZE 1 = Fin 4"
    by (simp_all add: quiet_test_env_def time_seconds_1s speed_macro_1)
  have sz: "TEST_FILE_SIZE = 4194304"
    by (simp add: TEST_FILE_SIZE_def)
  from C10_report_from_target_after_failure [OF h]
  obtain rw tw where
    rw: "transfer_loop WriteMode (stream ?env) TEST_FILE_SIZE TEST_BUFFER_SIZE session_init
           = Some rw"
    and tw: "test_write_speed ?env = Some tw"
    and imp: "broke rw \<longrightarrow> bytes_transferred rw < TEST_FILE_SIZE
           \<and> speed_reports tw
               = [(speed_mb TEST_FILE_SIZE (time_seconds (start_time ?env) (end_time ?env)),
                   time_seconds (start_time ?env) (end_time ?env), TEST_FILE_SIZE)]"
    by blast
  from rw have b: "broke rw" "bytes_transferred rw = 0"
    by (auto simp: vals(1) short_at_0_macros)
  with imp have "speed_reports tw = [(Fin 4, 1, TEST_FILE_SIZE)]"
    by (simp add: vals quiet_time)
  then have "speed_reports tw = [(Fin 4, 1, 4194304)]"
    by (simp only: sz)
  with rw tw b h show ?thesis
    by (auto simp: vals(1))
qed

text \<open>
  Claim C3 fails on the program: no path signals an immeasurable outcome. With equal timer
  readings the write test reports an infinite throughput.
\<close>

theorem C3_zero_elapsed_counterexample:
  "end_time zero_elapsed_env \<le> start_time zero_elapsed_env
   \<and> map_option speed_reports (test_write_speed zero_elapsed_env) = Some [(PInf, 0, 4194304)]"
proof -
  have h: "malloc_ok zero_elapsed_env" "fopen_ok zero_elapsed_env"
    by (simp_all add: zero_elapsed_env_def quiet_test_env_def)
  have vals: "time_seconds (start_time zero_elapsed_env) (end_time zero_elapsed_env) = 0"
    by (simp add: zero_elapsed_env_def quiet_test_env_def time_seconds_same)
  have sz: "TEST_FILE_SIZE = 4194304"
    by (simp add: TEST_FILE_SIZE_def)
  from test_write_speed_at_reports [OF buffer_size_pos h, of TEST_FILE_SIZE]
  have "map_option speed_reports (test_write_speed zero_elapsed_env)
          = Some [(PInf, 0, TEST_FILE_SIZE)]"
    by (auto simp: test_write_speed_def vals speed_macro_0)
  then have "map_option speed_reports (test_write_speed zero_elapsed_env)
          = Some [(PInf, 0, 4194304)]"
    by (simp only: sz)
  then show ?thesis
    by (simp add: zero_elapsed_env_def quiet_test_env_def)
qed

text \<open>
  Claim C3, amended. When a speed test at the configured sizes got its buffer and its
  file, it reports exactly one throughput whatever the elapsed time is: there is no
  immeasurable outcome. With \<open>d\<close> the 64-bit difference of the two timestamps (the
  difference itself when it fits in 64 bits), the reported seconds \<open>t\<close> are
  \<open>d / 10\<^sup>6\<close> up to a relative rounding error of \<open>2\<^sup>-\<^sup>2\<^sup>1\<close>. When \<open>d\<close> is zero the
  reported throughput is the positive infinity. Otherwise it is a finite \<open>q\<close> with
  \<open>q * t\<close> equal to 4 (the size in MiB) up to a relative rounding error of \<open>2\<^sup>-\<^sup>2\<^sup>2\<close>,
  and \<open>q\<close> is positive exactly when \<open>d\<close> is.
\<close>

theorem C3_throughput_always_divided:
  assumes "malloc_ok env" "fopen_ok env"
    and d: "d = wrap64 (end_time env - start_time env)"
    and t: "t = time_seconds (start_time env) (end_time env)"
    and sp: "sp = speed_mb TEST_FILE_SIZE t"
  shows "map_option speed_reports (test_write_speed env) = Some [(sp, t, TEST_FILE_SIZE)]
    \<and> map_option speed_reports (test_read_speed env) = Some [(sp, t, TEST_FILE_SIZE)]
    \<and> \<bar>t * 1000000 - of_int d\<bar> * 2 ^ 21 \<le> \<bar>of_int d\<bar>
    \<and> (d = 0 \<longrightarrow> sp = PInf)
    \<and> (d \<noteq> 0 \<longrightarrow> (\<exists>q. sp = Fin q \<and> \<bar>q * t - 4\<bar> * 2 ^ 22 \<le> 4 \<and> (0 < q \<longleftrightarrow> 0 < d)))
    \<and> (- (2 ^ 63) \<le> end_time env - start_time env \<and> end_time env - start_time env < 2 ^ 63
          \<longrightarrow> d = end_time env - start_time env)"
proof -
  from test_write_speed_at_reports [OF buffer_size_pos assms(1,2), of TEST_FILE_SIZE]
  have w: "map_option speed_reports (test_write_speed env) = Some [(sp, t, TEST_FILE_SIZE)]"
    by (auto simp: test_write_speed_def sp t)
  from test_read_speed_at_reports [OF buffer_size_pos assms(1,2), of TEST_FILE_SIZE]
  have r: "map_option speed_reports (test_read_speed env) = Some [(sp, t, TEST_FILE_SIZE)]"
    by (auto simp: test_read_speed_def sp t)
  have v: "\<bar>t * 1000000 - of_int d\<bar> * 2 ^ 21 \<le> \<bar>of_int d\<bar>"
    "d = 0 \<longrightarrow> sp = PInf"
    "d \<noteq> 0 \<longrightarrow> (\<exists>q. sp = Fin q \<and> \<bar>q * t - 4\<bar> * 2 ^ 22 \<le> 4 \<and> (0 < q \<longleftrightarrow> 0 < d))"
    using throughput_facts [OF d t] by (simp_all only: sp)
  have "- (2 ^ 63) \<le> end_time env - start_time env \<and> end_time env - start_time env < 2 ^ 63
          \<longrightarrow> d = end_time env - start_time env"
    by (simp add: d wrap64_id)
  with w r v show ?thesis
    by blast
qed

theorem C3_throughput_always_divided_witness:
  "malloc_ok two_second_env \<and> fopen_ok two_second_env
   \<and> wrap64 (end_time two_second_env - start_time two_second_env) = 2000000
   \<and> map_option speed_reports (test_write_speed two_second_env) = Some [(Fin 2, 2, 4194304)]
   \<and> map_option speed_reports (test_read_speed two_second_env) = Some [(Fin 2, 2, 4194304)]
   \<and> malloc_ok zero_elapsed_env \<and> fopen_ok zero_elapsed_env
   \<and> wrap64 (end_time zero_elapsed_env - start_time zero_elapsed_env) = 0
   \<and> map_option speed_reports (test_read_speed zero_elapsed_env) = Some [(PInf, 0, 4194304)]"
proof -
  have h2: "malloc_ok two_second_env" "fopen_ok two_second_env"
    by (simp_all add: two_second_env_def quiet_test_env_def)
  have h0: "malloc_ok zero_elapsed_env" "fopen_ok zero_elapsed_env"
    by (simp_all add: zero_elapsed_env_def quiet_test_env_def)
  have d2: "wrap64 (end_time two_second_env - start_time two_second_env) = 2000000"
    by (simp add: two_second_env_def quiet_test_env_def wrap64_def)
  have d0: "wrap64 (end_time zero_elapsed_env - start_time zero_elapsed_env) = 0"
    by (simp add: zero_elapsed_env_def quiet_test_env_def wrap64_def)
  have t2: "time_seconds (start_time two_second_env) (end_time two_second_env) = 2"
    by (simp add: two_second_env_def quiet_test_env_def time_seconds_2s)
  have t0: "time_seconds (start_time zero_elapsed_env) (end_time zero_elapsed_env) = 0"
    by (simp add: zero_elapsed_env_def quiet_test_env_def time_seconds_same)
  have sz: "TEST_FILE_SIZE = 4194304"
    by (simp add: TEST_FILE_SIZE_def)
  from C3_throughput_always_divided [OF h2 refl refl refl]
  have "map_option speed_reports (test_write_speed two_second_env)
          = Some [(Fin 2, 2, TEST_FILE_SIZE)]"
    "map_option speed_reports (test_read_speed two_second_env)
          = Some [(Fin 2, 2, TEST_FILE_SIZE)]"
    by (simp_all add: t2 speed_macro_2)
  moreover from C3_throughput_always_divided [OF h0 refl refl refl]
  have "map_option speed_reports (test_read_speed zero_elapsed_env)
          = Some [(PInf, 0, TEST_FILE_SIZE)]"
    by (simp add: t0 speed_macro_0)
  ultimately show ?thesis
    using h2 h0 d2 d0 by (simp only: sz)
qed

subsection \<open>The failure report\<close>

lemma progress_xfer_event: "count r = t \<Longrightarrow> progress_event (xfer_event m t r)"
  by (cases m) (simp_all add: xfer_event_def progress_event_def)

lemma progress_progress_logs: "list_all progress_event (progress_logs m b n t)"
  by (cases m) (simp_all add: progress_logs_def progress_event_def)

lemma tail_inv_init: "tail_inv m session_init"
  by (simp add: tail_inv_def session_init_def)

lemma tail_inv_step:
  assumes "tail_inv m s" "\<not> broke s"
  shows "tail_inv m (transfer_step m dev target buf s)"
proof -
  let ?to = "chunk_size target buf (bytes_transferred s)"
  let ?res = "dev (ncalls s) ?to"
  from assms have pre: "list_all progress_event (trace s)"
    by (simp add: tail_inv_def)
  show ?thesis
  proof (cases "count ?res = ?to")
    case True
    then have "trace (transfer_step m dev target buf s)
                 = trace s @ [xfer_event m ?to ?res]
                   @ progress_logs m (bytes_transferred s) (count ?res) target"
      "\<not> broke (transfer_step m dev target buf s)"
      using assms(2) by (simp_all add: transfer_step_def Let_def)
    with pre progress_xfer_event [OF True, of m] progress_progress_logs show ?thesis
      by (simp add: tail_inv_def)
  next
    case False
    then have "trace (transfer_step m dev target buf s)
                 = trace s @ [xfer_event m ?to ?res]
                   @ failure_logs m (bytes_transferred (transfer_step m dev target buf s))
                       ?to ?res"
      "broke (transfer_step m dev target buf s)"
      by (simp_all add: transfer_step_def Let_def)
    with pre False show ?thesis
      unfolding tail_inv_def by auto
  qed
qed

text \<open>
  The report of a failed session, for both loops: the trace ends with the failed call and
  what is logged about it, after progress events only. The read loop logs the returned and
  requested counts, the total and both stream indicators, then the error line with
  \<^verbatim>\<open>errno\<close> if the error indicator is set and the end-of-file line otherwise. The
  write loop logs the one line \<^verbatim>\<open>Write failed\<close>, which depends on nothing.
\<close>

lemma transfer_failure_report:
  assumes "0 < buf"
  shows "\<exists>r. transfer_loop m dev target buf session_init = Some r
     \<and> (broke r \<longrightarrow>
          (\<exists>pre to res. count res \<noteq> to \<and> list_all progress_event pre
             \<and> trace r = pre @
                 (case m of
                    ReadMode \<Rightarrow>
                      [Fread to res,
                       Log LOGE (Read_partial_failed (count res) to (bytes_transferred r)
                                   (ferror res) (feof res)),
                       if ferror res then Log LOGE (Read_failed_with_error (errno res))
                       else Log LOGW (Unexpected_EOF (bytes_transferred r))]
                  | WriteMode \<Rightarrow> [Fwrite to res, Log LOGE Write_failed])))"
proof -
  from transfer_loop_rule [where P = "tail_inv m", OF assms tail_inv_init not_broke_init
      tail_inv_step]
  obtain r where r: "transfer_loop m dev target buf session_init = Some r" "tail_inv m r"
    by blast
  have "\<exists>pre to res. count res \<noteq> to \<and> list_all progress_event pre
          \<and> trace r = pre @
                 (case m of
                    ReadMode \<Rightarrow>
                      [Fread to res,
                       Log LOGE (Read_partial_failed (count res) to (bytes_transferred r)
                                   (ferror res) (feof res)),
                       if ferror res then Log LOGE (Read_failed_with_error (errno res))
                       else Log LOGW (Unexpected_EOF (bytes_transferred r))]
                  | WriteMode \<Rightarrow> [Fwrite to res, Log LOGE Write_failed])"
    if "broke r"
  proof -
    from r(2) that obtain pre to res where
      t: "trace r = pre @ [xfer_event m to res] @ failure_logs m (bytes_transferred r) to res"
      and c: "count res \<noteq> to" and p: "list_all progress_event pre"
      unfolding tail_inv_def by auto
    from t have "trace r = pre @
                 (case m of
                    ReadMode \<Rightarrow>
                      [Fread to res,
                       Log LOGE (Read_partial_failed (count res) to (bytes_transferred r)
                                   (ferror res) (feof res)),
                       if ferror res then Log LOGE (Read_failed_with_error (errno res))
                       else Log LOGW (Unexpected_EOF (bytes_transferred r))]
                  | WriteMode \<Rightarrow> [Fwrite to res, Log LOGE Write_failed])"
      by (cases m) (simp_all add: xfer_event_def failure_logs_def)
    with c p show ?thesis
      by blast
  qed
  with r(1) show ?thesis
    by blast
qed

text \<open>
  Claim C5 fails on the program for write sessions. At the configured sizes, on a stream
  whose second call comes back one byte short with the error indicator set, the write
  test logs only \<^verbatim>\<open>Write failed\<close>: its report carries neither counts nor cause. On
  the same stream the read test reports the counts, both indicators and the error line.
\<close>

theorem C5_write_failure_report_has_no_cause:
  "map_option logs (test_write_speed error_env)
     = Some [(LOGI, Testing_write_speed), (LOGI, Opening_file_for_writing),
             (LOGE, Write_failed), (LOGI, Write_speed (Fin 4) 1 4194304)]
   \<and> map_option logs (test_read_speed error_env)
     = Some [(LOGI, Testing_read_speed), (LOGI, Opening_file_for_reading),
             (LOGD, Read_progress 131072 131072 4194304),
             (LOGE, Read_partial_failed 131071 131072 131072 True False),
             (LOGE, Read_failed_with_error 5), (LOGI, Read_speed (Fin 4) 1 4194304)]
   \<and> ferror (stream error_env 1 131072) \<and> \<not> feof (stream error_env 1 131072)"
proof -
  have w: "transfer_loop WriteMode (error_at 1) TEST_FILE_SIZE TEST_BUFFER_SIZE session_init
    = Some \<lparr>bytes_transferred = 131072, broke = True, ncalls = 2,
        trace = [Fwrite 131072 \<lparr>count = 131072, ferror = False, feof = False, errno = 0\<rparr>,
                 Fwrite 131072 \<lparr>count = 131071, ferror = True, feof = False, errno = 5\<rparr>,
                 Log LOGE Write_failed]\<rparr>"
    by (simp add: transfer_loop.simps eval_defs TEST_FILE_SIZE_def TEST_BUFFER_SIZE_def)
  have r: "transfer_loop ReadMode (error_at 1) TEST_FILE_SIZE TEST_BUFFER_SIZE session_init
    = Some \<lparr>bytes_transferred = 131072, broke = True, ncalls = 2,
        trace = [Fread 131072 \<lparr>count = 131072, ferror = False, feof = False, errno = 0\<rparr>,
                 Log LOGD (Read_progress 131072 131072 TEST_FILE_SIZE),
                 Fread 131072 \<lparr>count = 131071, ferror = True, feof = False, errno = 5\<rparr>,
                 Log LOGE (Read_partial_failed 131071 131072 131072 True False),
                 Log LOGE (Read_failed_with_error 5)]\<rparr>"
    by (subst transfer_loop.simps, subst transfer_loop.simps)
       (simp add: eval_defs TEST_FILE_SIZE_def [symmetric] TEST_BUFFER_SIZE_def,
        simp add: TEST_FILE_SIZE_def)
  have sz: "TEST_FILE_SIZE = 4194304"
    by (simp add: TEST_FILE_SIZE_def)
  have "map_option logs (test_write_speed error_env)
     = Some [(LOGI, Testing_write_speed), (LOGI, Opening_file_for_writing),
             (LOGE, Write_failed), (LOGI, Write_speed (Fin 4) 1 TEST_FILE_SIZE)]"
    by (simp add: test_write_speed_def test_write_speed_at_def error_env_def
        quiet_test_env_def w [unfolded One_nat_def] speed_macro_1 time_seconds_1s logs_def
        Let_def)
  moreover have "map_option logs (test_read_speed error_env)
     = Some [(LOGI, Testing_read_speed), (LOGI, Opening_file_for_reading),
             (LOGD, Read_progress 131072 131072 TEST_FILE_SIZE),
             (LOGE, Read_partial_failed 131071 131072 131072 True False),
             (LOGE, Read_failed_with_error 5), (LOGI, Read_speed (Fin 4) 1 TEST_FILE_SIZE)]"
    by (simp add: test_read_speed_def test_read_speed_at_def error_env_def
        quiet_test_env_def r [unfolded One_nat_def] speed_macro_1 time_seconds_1s logs_def
        Let_def)
  moreover have "ferror (stream error_env 1 131072)" "\<not> feof (stream error_env 1 131072)"
    by (simp_all add: error_env_def quiet_test_env_def error_at_def)
  ultimately show ?thesis
    by (simp only: sz) simp
qed

end
